theory Spec2Isabelle
  imports Main "HOL-Library.Finite_Map" "HOL-Library.Word" "HOL-Library.Extended_Nat"
begin

section \<open>LRU-K replacer (src/buffer/lru\_k\_replacer.cpp)\<close>

text \<open>
  The integer types of the source are declared in headers that are not among the sources at
  hand; they have the widths of the platform the code is written for. Frame identifiers
  (\<open>frame_id_t\<close>) are integers on which no arithmetic is done. Page identifiers
  (\<open>page_id_t\<close>) are 32-bit integers: the counter that allocates them is incremented and
  wraps around from \<open>2 ^ 31 - 1\<close> to \<open>- (2 ^ 31)\<close>. Timestamps are \<open>size_t\<close> values of 64 bits:
  \<open>++current_timestamp_\<close> wraps around from \<open>2 ^ 64 - 1\<close> to 0, and timestamps are compared
  as unsigned numbers. The hash tables of the source (\<open>std::unordered_map\<close>) are finite
  maps.
\<close>

type_synonym frame_id_t = int
type_synonym page_id_t = "32 word"
type_synonym timestamp_t = "64 word"

text \<open>
  A node of the replacer (the members \<open>history_\<close>, \<open>fid_\<close>, \<open>is_evictable_\<close>,
  \<open>iter_\<close> of the source, written without the trailing underscore, as all member names
  are below; \<open>k_\<close> is \<open>lru_k\<close>). \<open>history\<close> is the \<open>std::list\<close> of timestamps, newest at the
  front. \<open>iter\<close> is the iterator into the eviction queue that the node keeps; an iterator
  is represented by the queue element it points at.
\<close>

record LRUKNode =
  history :: "timestamp_t list"
  fid :: frame_id_t
  is_evictable :: bool
  iter :: frame_id_t

text \<open>
  The replacer. \<open>evict_queue\<close> is the \<open>std::set<LRUKNode *, Comparator>\<close> of the source,
  written as the list of its elements in iteration order; an element is a pointer to a
  node stored in \<open>node_store\<close> and is represented by the key of that node.
\<close>

record LRUKReplacer =
  node_store :: "(frame_id_t, LRUKNode) fmap"
  evict_queue :: "frame_id_t list"
  current_timestamp :: timestamp_t
  max_size :: nat
  evictable_size :: "64 word"
  lru_k :: nat

datatype error = Thrown

text \<open>\<open>Comparator::operator()\<close>: true iff \<open>l\<close> is ordered before \<open>r\<close>.\<close>

definition Comparator :: "nat \<Rightarrow> LRUKNode \<Rightarrow> LRUKNode \<Rightarrow> bool" where
  "Comparator k l r =
     (if length (history l) = k \<and> length (history r) < k then False
      else if length (history l) < k \<and> length (history r) = k then True
      else last (history l) < last (history r))"

text \<open>Dereferencing a queue element: the node it points to in the node table.\<close>

definition deref :: "(frame_id_t, LRUKNode) fmap \<Rightarrow> frame_id_t \<Rightarrow> LRUKNode" where
  "deref ns f = the (fmlookup ns f)"

definition queue_less :: "nat \<Rightarrow> (frame_id_t, LRUKNode) fmap \<Rightarrow> frame_id_t \<Rightarrow> frame_id_t \<Rightarrow> bool" where
  "queue_less k ns a b = Comparator k (deref ns a) (deref ns b)"

text \<open>
  \<open>std::set::emplace\<close> on the ordered list: the element is placed before the first
  element it is less than; if an equivalent element (neither less than the other) is met,
  nothing is inserted. The second component is the returned iterator.
\<close>

fun set_emplace :: "('a \<Rightarrow> 'a \<Rightarrow> bool) \<Rightarrow> 'a \<Rightarrow> 'a list \<Rightarrow> 'a list \<times> 'a" where
  "set_emplace lt x [] = ([x], x)"
| "set_emplace lt x (y # ys) =
     (if lt x y then (x # y # ys, x)
      else if lt y x then (case set_emplace lt x ys of (q, it) \<Rightarrow> (y # q, it))
      else (y # ys, y))"

text \<open>\<open>std::set::erase(iterator)\<close>: the element the iterator points at leaves the list.\<close>

definition set_erase :: "'a \<Rightarrow> 'a list \<Rightarrow> 'a list" where
  "set_erase it q = remove1 it q"

text \<open>
  The constructor. The timestamp counter is not in its initialiser list; it starts at 0 (its
  default member initialiser is in the missing header).
\<close>

definition LRUKReplacer_init :: "nat \<Rightarrow> nat \<Rightarrow> LRUKReplacer" where
  "LRUKReplacer_init num_frames k =
     \<lparr>node_store = fmempty, evict_queue = [], current_timestamp = 0,
      max_size = num_frames, evictable_size = 0, lru_k = k\<rparr>"

text \<open>
  \<open>Evict\<close>: the result is the frame id written through the out-parameter
  (\<open>None\<close> when the function returns false) and the new state.
\<close>

definition Evict :: "LRUKReplacer \<Rightarrow> frame_id_t option \<times> LRUKReplacer" where
  "Evict r =
     (case evict_queue r of
        [] \<Rightarrow> (None, r)
      | it # q \<Rightarrow>
          (let frame_id = fid (deref (node_store r) it)
           in (Some frame_id,
               r\<lparr>evict_queue := q,
                 node_store := fmdrop frame_id (node_store r),
                 evictable_size := evictable_size r - 1\<rparr>)))"

text \<open>\<open>push_front\<close> of the new timestamp, then one \<open>pop_back\<close> if the list is longer than k.\<close>

definition push_history :: "nat \<Rightarrow> timestamp_t \<Rightarrow> timestamp_t list \<Rightarrow> timestamp_t list" where
  "push_history k ts h = (let h' = ts # h in if length h' > k then butlast h' else h')"

text \<open>
  \<open>RecordAccess\<close>. The result is \<open>Inl Thrown\<close> when the function leaves by
  \<open>throw("error")\<close>; the state is returned in both cases, because the timestamp has then
  already been incremented.
\<close>

definition RecordAccess :: "frame_id_t \<Rightarrow> LRUKReplacer \<Rightarrow> (error + unit) \<times> LRUKReplacer" where
  "RecordAccess frame_id r0 =
     (let r = r0\<lparr>current_timestamp := current_timestamp r0 + 1\<rparr> in
      case fmlookup (node_store r) frame_id of
        Some node \<Rightarrow>
          (if is_evictable node then
             (let q1 = set_erase (iter node) (evict_queue r);
                  node1 = node\<lparr>history := push_history (lru_k r) (current_timestamp r) (history node)\<rparr>;
                  ns1 = fmupd frame_id node1 (node_store r);
                  res = set_emplace (queue_less (lru_k r) ns1) frame_id q1;
                  node2 = node1\<lparr>iter := snd res\<rparr>
              in (Inr (), r\<lparr>node_store := fmupd frame_id node2 ns1, evict_queue := fst res\<rparr>))
           else
             (let node1 = node\<lparr>history := push_history (lru_k r) (current_timestamp r) (history node)\<rparr>
              in (Inr (), r\<lparr>node_store := fmupd frame_id node1 (node_store r)\<rparr>)))
      | None \<Rightarrow>
          (if fcard (fmdom (node_store r)) < max_size r then
             (let node1 = \<lparr>history = [current_timestamp r], fid = frame_id,
                           is_evictable = True, iter = frame_id\<rparr>;
                  ns1 = fmupd frame_id node1 (node_store r);
                  newRes = set_emplace (queue_less (lru_k r) ns1) frame_id (evict_queue r);
                  node2 = node1\<lparr>iter := snd newRes\<rparr>
              in (Inr (), r\<lparr>node_store := fmupd frame_id node2 ns1, evict_queue := fst newRes,
                            evictable_size := evictable_size r + 1\<rparr>))
           else (Inl Thrown, r)))"

definition SetEvictable :: "frame_id_t \<Rightarrow> bool \<Rightarrow> LRUKReplacer \<Rightarrow> (error + unit) \<times> LRUKReplacer" where
  "SetEvictable frame_id set_evictable r =
     (case fmlookup (node_store r) frame_id of
        Some node \<Rightarrow>
          (if is_evictable node \<noteq> set_evictable then
             (let node1 = node\<lparr>is_evictable := set_evictable\<rparr>;
                  ns1 = fmupd frame_id node1 (node_store r)
              in if set_evictable then
                   (let res = set_emplace (queue_less (lru_k r) ns1) frame_id (evict_queue r);
                        node2 = node1\<lparr>iter := snd res\<rparr>
                    in (Inr (), r\<lparr>node_store := fmupd frame_id node2 ns1, evict_queue := fst res,
                                  evictable_size := evictable_size r + 1\<rparr>))
                 else
                   (Inr (), r\<lparr>node_store := ns1,
                                evict_queue := set_erase (iter node1) (evict_queue r),
                                evictable_size := evictable_size r - 1\<rparr>))
           else (Inr (), r))
      | None \<Rightarrow> (Inl Thrown, r))"

definition Remove_node :: "frame_id_t \<Rightarrow> LRUKReplacer \<Rightarrow> (error + unit) \<times> LRUKReplacer" where
  "Remove_node frame_id r =
     (case fmlookup (node_store r) frame_id of
        Some node \<Rightarrow>
          (if is_evictable node then
             (Inr (), r\<lparr>evict_queue := set_erase (iter node) (evict_queue r),
                          node_store := fmdrop frame_id (node_store r),
                          evictable_size := evictable_size r - 1\<rparr>)
           else (Inl Thrown, r))
      | None \<Rightarrow> (Inr (), r))"

definition Size :: "LRUKReplacer \<Rightarrow> 64 word" where
  "Size r = evictable_size r"

subsection \<open>Invariants of the replacer\<close>

text \<open>
  The eviction queue is well formed: no element occurs twice, and every element points to a
  tracked node that sits under its own frame id, is flagged evictable and keeps the iterator
  to this very element. This holds of every replacer built by the constructor and changed
  only by its four operations, whatever the timestamps are.
\<close>

definition queue_wf :: "LRUKReplacer \<Rightarrow> bool" where
  "queue_wf r \<longleftrightarrow>
     distinct (evict_queue r) \<and>
     fmpred (\<lambda>f n. fid n = f) (node_store r) \<and>
     list_all (\<lambda>f. case fmlookup (node_store r) f of
                      None \<Rightarrow> False
                    | Some n \<Rightarrow> is_evictable n \<and> iter n = f) (evict_queue r)"

text \<open>
  What holds of every node as long as the timestamp counter has not wrapped around: the node
  sits under its own frame id, its history is not empty and holds at most k timestamps (one
  timestamp if k is 0, because a new node gets one and an access removes at most one), none
  of them in the future, and, while the node is evictable, its iterator points at its own
  queue element.
\<close>

definition node_ok :: "LRUKReplacer \<Rightarrow> frame_id_t \<Rightarrow> LRUKNode \<Rightarrow> bool" where
  "node_ok r f n \<longleftrightarrow>
     fid n = f \<and> history n \<noteq> [] \<and> length (history n) \<le> max 1 (lru_k r) \<and>
     (is_evictable n \<longrightarrow> iter n = f) \<and>
     list_all (\<lambda>t. t \<le> current_timestamp r) (history n)"

text \<open>The evictable nodes: the tracked frames whose node has the evictable flag set.\<close>

definition evictable_frames :: "LRUKReplacer \<Rightarrow> frame_id_t set" where
  "evictable_frames r = {f. \<exists>n. fmlookup (node_store r) f = Some n \<and> is_evictable n}"

text \<open>
  The invariant of the replacer as long as the timestamp counter has not wrapped around:
  every node is well formed, no timestamp occurs in the histories of two nodes, and the
  queue holds exactly the evictable nodes, in the order of the comparator.
\<close>

definition replacer_inv :: "LRUKReplacer \<Rightarrow> bool" where
  "replacer_inv r \<longleftrightarrow>
     fmpred (node_ok r) (node_store r) \<and>
     fmpred (\<lambda>f n. fmpred (\<lambda>g m. f \<noteq> g \<longrightarrow> set (history n) \<inter> set (history m) = {})
                      (node_store r)) (node_store r) \<and>
     sorted_wrt (queue_less (lru_k r) (node_store r)) (evict_queue r) \<and>
     set (evict_queue r) = evictable_frames r"

text \<open>
  Backward k-distance of a node at time \<open>now\<close>: infinite while fewer than k accesses are
  recorded, otherwise the time since the k-th most recent access, which is the last entry
  of the history.
\<close>

definition backward_k_distance :: "nat \<Rightarrow> timestamp_t \<Rightarrow> LRUKNode \<Rightarrow> enat" where
  "backward_k_distance k now n =
     (if length (history n) < k then \<infinity> else enat (unat now - unat (last (history n))))"

text \<open>A run of \<open>RecordAccess\<close> calls, for the example states.\<close>

fun accesses :: "frame_id_t list \<Rightarrow> LRUKReplacer \<Rightarrow> LRUKReplacer" where
  "accesses [] r = r"
| "accesses (f # fs) r = accesses fs (snd (RecordAccess f r))"

section \<open>Buffer pool manager (src/buffer/buffer\_pool\_manager.cpp)\<close>

type_synonym byte = "8 word"

text \<open>
  A frame of the pool (class \<open>Page\<close>): the byte buffer, the id of the resident page, the
  pin count and the dirty flag. The pin count is an \<open>int\<close> of the source, 32 bits read as a
  signed number (\<open>sint\<close>): \<open>++\<close> and \<open>--\<close> are addition and subtraction of 1 on 32 bits, so
  that incrementing \<open>2 ^ 31 - 1\<close> gives \<open>- (2 ^ 31)\<close>, the result of the machine instruction
  (C++ leaves the overflow of a signed increment undefined), and \<open>pin_count_ > 0\<close> is the
  signed comparison.
\<close>

record Page =
  data :: "byte list"
  page_id :: page_id_t
  pin_count :: "32 word"
  is_dirty :: bool

text \<open>
  The two compile-time constants the pool uses, \<open>PAGE_SIZE\<close> and \<open>INVALID_PAGE_ID\<close>, are
  declared in a header that is not part of the sources at hand. They are parameters of the
  model.
\<close>

record config =
  PAGE_SIZE :: nat
  INVALID_PAGE_ID :: page_id_t

text \<open>
  Modelled from the spec: \<open>Page::ResetMemory\<close> (declared in the missing header
  \<open>page.h\<close>) zeroes the frame's buffer of \<open>PAGE_SIZE\<close> bytes.
\<close>

definition ResetMemory :: "nat \<Rightarrow> Page \<Rightarrow> Page" where
  "ResetMemory n p = p\<lparr>data := replicate n 0\<rparr>"

text \<open>
  Modelled from the spec: a frame as the constructor of \<open>Page\<close> (missing header) leaves it:
  zeroed buffer, no resident page, pin count 0, clean.
\<close>

definition Page_init :: "config \<Rightarrow> Page" where
  "Page_init cfg =
     \<lparr>data = replicate (PAGE_SIZE cfg) 0, page_id = INVALID_PAGE_ID cfg, pin_count = 0,
      is_dirty = False\<rparr>"

text \<open>
  Modelled from the spec: the disk scheduler (class \<open>DiskScheduler\<close>, not in the sources
  at hand). The disk holds the bytes of every page; \<open>requests\<close> is the log of the requests
  served so far, \<open>(is_write, page_id)\<close> each. \<open>Schedule\<close> followed by \<open>future.get()\<close>
  serves one request synchronously: a write stores the buffer under the page id, a read
  returns the stored bytes, which the caller's buffer then holds.
\<close>

record DiskScheduler =
  disk_pages :: "page_id_t \<Rightarrow> byte list"
  requests :: "(bool \<times> page_id_t) list"

definition Schedule :: "bool \<Rightarrow> byte list \<Rightarrow> page_id_t \<Rightarrow> DiskScheduler \<Rightarrow> byte list \<times> DiskScheduler" where
  "Schedule is_write buf pid d =
     (if is_write
      then (buf, d\<lparr>disk_pages := (disk_pages d)(pid := buf), requests := requests d @ [(True, pid)]\<rparr>)
      else (disk_pages d pid, d\<lparr>requests := requests d @ [(False, pid)]\<rparr>))"

text \<open>
  The pool. \<open>pages\<close> is the array of frames, addressed by frame id. The log manager and the
  mutex are left out: every operation runs under the mutex from its first to its last
  statement, so the operations are state transformers.
\<close>

record BufferPoolManager =
  pool_size :: nat
  pages :: "frame_id_t \<Rightarrow> Page"
  replacer :: LRUKReplacer
  free_list :: "frame_id_t list"
  page_table :: "(page_id_t, frame_id_t) fmap"
  next_page_id :: page_id_t
  disk_scheduler :: DiskScheduler

text \<open>
  The constructor: every frame is in the free list, in increasing order. The page id counter
  starts at 0 (its initialiser is in the missing header; the spec has page ids non-negative
  and increasing). \<open>AllocatePage\<close> returns the counter and increments it, on 32 bits.
\<close>

definition BufferPoolManager_init :: "config \<Rightarrow> nat \<Rightarrow> nat \<Rightarrow> DiskScheduler \<Rightarrow> BufferPoolManager" where
  "BufferPoolManager_init cfg n replacer_k disk =
     \<lparr>pool_size = n, pages = (\<lambda>_. Page_init cfg),
      replacer = LRUKReplacer_init n replacer_k,
      free_list = map int [0..<n], page_table = fmempty, next_page_id = 0,
      disk_scheduler = disk\<rparr>"

text \<open>\<open>std::unordered_map::emplace\<close>: nothing is stored if the key is present.\<close>

definition emplace :: "'k \<Rightarrow> 'v \<Rightarrow> ('k, 'v) fmap \<Rightarrow> ('k, 'v) fmap" where
  "emplace k v m = (if k |\<in>| fmdom m then m else fmupd k v m)"

definition FlushFrame :: "frame_id_t \<Rightarrow> BufferPoolManager \<Rightarrow> BufferPoolManager" where
  "FlushFrame frame_id s =
     (let page = pages s frame_id in
      if is_dirty page then
        (let page1 = page\<lparr>is_dirty := False\<rparr>;
             res = Schedule True (data page1) (page_id page1) (disk_scheduler s)
         in s\<lparr>pages := (pages s)(frame_id := page1), disk_scheduler := snd res\<rparr>)
      else s)"

text \<open>
  Modelled from the spec: \<open>DeallocatePage\<close> is defined in the missing header; the pool
  keeps no record of deallocated ids, so it changes nothing.
\<close>

definition DeallocatePage :: "page_id_t \<Rightarrow> BufferPoolManager \<Rightarrow> BufferPoolManager" where
  "DeallocatePage pid s = s"

text \<open>
  \<open>NewPage\<close>. The result is \<open>Inl Thrown\<close> if the replacer throws, \<open>Inr None\<close> for the
  null pointer, and otherwise the new page id (the out-parameter) with the frame returned.
\<close>

definition NewPage :: "config \<Rightarrow> BufferPoolManager \<Rightarrow> (error + (page_id_t \<times> frame_id_t) option) \<times> BufferPoolManager" where
  "NewPage cfg s =
     (case (if free_list s \<noteq> [] then
              (Some (last (free_list s)), s\<lparr>free_list := butlast (free_list s)\<rparr>)
            else
              (case Evict (replacer s) of
                 (Some frame_id, rep) \<Rightarrow>
                   (let s1 = s\<lparr>replacer := rep\<rparr>;
                        s2 = s1\<lparr>page_table := fmdrop (page_id (pages s1 frame_id)) (page_table s1)\<rparr>
                    in (Some frame_id, FlushFrame frame_id s2))
               | (None, rep) \<Rightarrow> (None, s\<lparr>replacer := rep\<rparr>))) of
        (None, s1) \<Rightarrow> (Inr None, s1)
      | (Some frame_id, s1) \<Rightarrow>
          (let pid = next_page_id s1;
               s2 = s1\<lparr>next_page_id := next_page_id s1 + 1\<rparr>;
               s3 = s2\<lparr>page_table := emplace pid frame_id (page_table s2)\<rparr>;
               page1 = ResetMemory (PAGE_SIZE cfg) ((pages s3 frame_id)\<lparr>page_id := pid, pin_count := 1\<rparr>);
               s4 = s3\<lparr>pages := (pages s3)(frame_id := page1)\<rparr>
           in case RecordAccess frame_id (replacer s4) of
                (Inl e, rep) \<Rightarrow> (Inl e, s4\<lparr>replacer := rep\<rparr>)
              | (Inr _, rep) \<Rightarrow>
                  (case SetEvictable frame_id False rep of
                     (Inl e, rep') \<Rightarrow> (Inl e, s4\<lparr>replacer := rep'\<rparr>)
                   | (Inr _, rep') \<Rightarrow> (Inr (Some (pid, frame_id)), s4\<lparr>replacer := rep'\<rparr>))))"

text \<open>
  \<open>FetchPage\<close> (the access type is not used by the source). The result is the frame
  returned, \<open>None\<close> for the null pointer.
\<close>

definition FetchPage :: "config \<Rightarrow> page_id_t \<Rightarrow> BufferPoolManager \<Rightarrow> (error + frame_id_t option) \<times> BufferPoolManager" where
  "FetchPage cfg pid s =
     (case fmlookup (page_table s) pid of
        Some frame_id \<Rightarrow>
          (case RecordAccess frame_id (replacer s) of
             (Inl e, rep) \<Rightarrow> (Inl e, s\<lparr>replacer := rep\<rparr>)
           | (Inr _, rep) \<Rightarrow>
               (case SetEvictable frame_id False rep of
                  (Inl e, rep') \<Rightarrow> (Inl e, s\<lparr>replacer := rep'\<rparr>)
                | (Inr _, rep') \<Rightarrow>
                    (let s1 = s\<lparr>replacer := rep'\<rparr>;
                         page1 = (pages s1 frame_id)\<lparr>pin_count := pin_count (pages s1 frame_id) + 1\<rparr>
                     in (Inr (Some frame_id), s1\<lparr>pages := (pages s1)(frame_id := page1)\<rparr>))))
      | None \<Rightarrow>
          (case (if free_list s \<noteq> [] then
                   (Some (last (free_list s)), s\<lparr>free_list := butlast (free_list s)\<rparr>)
                 else
                   (case Evict (replacer s) of
                      (None, rep) \<Rightarrow> (None, s\<lparr>replacer := rep\<rparr>)
                    | (Some frame_id, rep) \<Rightarrow>
                        (let s1 = s\<lparr>replacer := rep\<rparr>;
                             s2 = s1\<lparr>page_table := fmdrop (page_id (pages s1 frame_id)) (page_table s1)\<rparr>
                         in (Some frame_id, FlushFrame frame_id s2)))) of
             (None, s1) \<Rightarrow> (Inr None, s1)
           | (Some frame_id, s1) \<Rightarrow>
               (let s2 = s1\<lparr>page_table := emplace pid frame_id (page_table s1)\<rparr>
                in case RecordAccess frame_id (replacer s2) of
                     (Inl e, rep) \<Rightarrow> (Inl e, s2\<lparr>replacer := rep\<rparr>)
                   | (Inr _, rep) \<Rightarrow>
                       (case SetEvictable frame_id False rep of
                          (Inl e, rep') \<Rightarrow> (Inl e, s2\<lparr>replacer := rep'\<rparr>)
                        | (Inr _, rep') \<Rightarrow>
                            (let s3 = s2\<lparr>replacer := rep'\<rparr>;
                                 page1 = ResetMemory (PAGE_SIZE cfg)
                                           ((pages s3 frame_id)\<lparr>page_id := pid, pin_count := 0\<rparr>);
                                 res = Schedule False (data page1) (page_id page1) (disk_scheduler s3);
                                 page2 = page1\<lparr>data := fst res\<rparr>
                             in (Inr (Some frame_id),
                                 s3\<lparr>pages := (pages s3)(frame_id := page2),
                                    disk_scheduler := snd res\<rparr>))))))"

definition UnpinPage :: "page_id_t \<Rightarrow> bool \<Rightarrow> BufferPoolManager \<Rightarrow> (error + bool) \<times> BufferPoolManager" where
  "UnpinPage pid dirty s =
     (case fmlookup (page_table s) pid of
        None \<Rightarrow> (Inr False, s)
      | Some frame_id \<Rightarrow>
          (if pin_count (pages s frame_id) = 0 then (Inr False, s)
           else
             (let page1 = (pages s frame_id)\<lparr>pin_count := pin_count (pages s frame_id) - 1\<rparr>;
                  s1 = s\<lparr>pages := (pages s)(frame_id := page1)\<rparr>
              in case (if pin_count page1 = 0 then SetEvictable frame_id True (replacer s1)
                       else (Inr (), replacer s1)) of
                   (Inl e, rep) \<Rightarrow> (Inl e, s1\<lparr>replacer := rep\<rparr>)
                 | (Inr _, rep) \<Rightarrow>
                     (let s2 = s1\<lparr>replacer := rep\<rparr>;
                          page2 = (if dirty then (pages s2 frame_id)\<lparr>is_dirty := dirty\<rparr>
                                   else pages s2 frame_id)
                      in (Inr True, s2\<lparr>pages := (pages s2)(frame_id := page2)\<rparr>)))))"

definition FlushPage :: "page_id_t \<Rightarrow> BufferPoolManager \<Rightarrow> bool \<times> BufferPoolManager" where
  "FlushPage pid s =
     (case fmlookup (page_table s) pid of
        None \<Rightarrow> (False, s)
      | Some frame_id \<Rightarrow> (True, FlushFrame frame_id s))"

definition DeletePage :: "config \<Rightarrow> page_id_t \<Rightarrow> BufferPoolManager \<Rightarrow> (error + bool) \<times> BufferPoolManager" where
  "DeletePage cfg pid s =
     (case fmlookup (page_table s) pid of
        None \<Rightarrow> (Inr True, s)
      | Some frame_id \<Rightarrow>
          (let s1 = s\<lparr>page_table := fmdrop pid (page_table s)\<rparr> in
           if 0 <s pin_count (pages s1 frame_id) then (Inr False, s1)
           else
             (case Remove_node frame_id (replacer s1) of
                (Inl e, rep) \<Rightarrow> (Inl e, s1\<lparr>replacer := rep\<rparr>)
              | (Inr _, rep) \<Rightarrow>
                  (let s2 = s1\<lparr>replacer := rep, free_list := frame_id # free_list s1\<rparr>;
                       s3 = FlushFrame frame_id s2;
                       page1 = ResetMemory (PAGE_SIZE cfg)
                                 ((pages s3 frame_id)\<lparr>page_id := INVALID_PAGE_ID cfg\<rparr>)
                   in (Inr True, DeallocatePage pid (s3\<lparr>pages := (pages s3)(frame_id := page1)\<rparr>))))))"

text \<open>Example parameters and an empty disk for the concrete runs below.\<close>

definition cfg0 :: config where
  "cfg0 = \<lparr>PAGE_SIZE = 4, INVALID_PAGE_ID = - 1\<rparr>"

definition disk0 :: DiskScheduler where
  "disk0 = \<lparr>disk_pages = (\<lambda>_. replicate 4 0), requests = []\<rparr>"

text \<open>
  A call of one of the five operations of the pool, and the state a sequence of calls
  leaves behind (whatever the calls return).
\<close>

datatype bpm_call =
    Call_NewPage
  | Call_FetchPage page_id_t
  | Call_UnpinPage page_id_t bool
  | Call_FlushPage page_id_t
  | Call_DeletePage page_id_t

fun call :: "config \<Rightarrow> bpm_call \<Rightarrow> BufferPoolManager \<Rightarrow> BufferPoolManager" where
  "call cfg Call_NewPage s = snd (NewPage cfg s)"
| "call cfg (Call_FetchPage pid) s = snd (FetchPage cfg pid s)"
| "call cfg (Call_UnpinPage pid dirty) s = snd (UnpinPage pid dirty s)"
| "call cfg (Call_FlushPage pid) s = snd (FlushPage pid s)"
| "call cfg (Call_DeletePage pid) s = snd (DeletePage cfg pid s)"

fun calls :: "config \<Rightarrow> bpm_call list \<Rightarrow> BufferPoolManager \<Rightarrow> BufferPoolManager" where
  "calls cfg [] s = s"
| "calls cfg (c # cs) s = calls cfg cs (call cfg c s)"

text \<open>A pool of one frame with \<open>k = 2\<close>, and the same pool after one \<open>NewPage\<close>.\<close>

definition pool1 :: BufferPoolManager where
  "pool1 = BufferPoolManager_init cfg0 1 2 disk0"

definition pool1_new :: BufferPoolManager where
  "pool1_new = calls cfg0 [Call_NewPage] pool1"

text \<open>The same pool after the page has been unpinned with the dirty flag set.\<close>

definition pool1_dirty :: BufferPoolManager where
  "pool1_dirty = calls cfg0 [Call_NewPage, Call_UnpinPage 0 True] pool1"

text \<open>
  The same pool after two pages have been created and unpinned in turn: page 0 has been
  evicted for page 1, which is resident and evictable.
\<close>

definition pool1_evicted :: BufferPoolManager where
  "pool1_evicted =
     calls cfg0 [Call_NewPage, Call_UnpinPage 0 False, Call_NewPage, Call_UnpinPage 1 False] pool1"

text \<open>
  The pool of one frame after \<open>NewPage\<close> and \<open>m\<close> calls of \<open>FetchPage\<close> for the page just
  created, none of them followed by \<open>UnpinPage\<close>.
\<close>

definition pool1_fetched :: "nat \<Rightarrow> BufferPoolManager" where
  "pool1_fetched m = calls cfg0 (Call_NewPage # replicate m (Call_FetchPage 0)) pool1"

subsection \<open>Invariant of the pool\<close>

text \<open>
  The frame acquisition that \<open>NewPage\<close> and the miss path of \<open>FetchPage\<close> both contain:
  the last frame of the free list, or else the victim of the replacer, whose page leaves the
  page table and is flushed.
\<close>

definition acquire_frame :: "BufferPoolManager \<Rightarrow> frame_id_t option \<times> BufferPoolManager" where
  "acquire_frame s =
     (if free_list s \<noteq> [] then
        (Some (last (free_list s)), s\<lparr>free_list := butlast (free_list s)\<rparr>)
      else
        (case Evict (replacer s) of
           (None, rep) \<Rightarrow> (None, s\<lparr>replacer := rep\<rparr>)
         | (Some frame_id, rep) \<Rightarrow>
             (let s1 = s\<lparr>replacer := rep\<rparr>;
                  s2 = s1\<lparr>page_table := fmdrop (page_id (pages s1 frame_id)) (page_table s1)\<rparr>
              in (Some frame_id, FlushFrame frame_id s2))))"

text \<open>
  What holds of the pool after the constructor and after every call, also a call that ends
  in an exception of the replacer: the queue of the replacer is well formed and the replacer
  has room for all frames of the pool; the tracked frames and the free frames are frames of the pool; no
  frame is twice in the free list; no free frame is tracked; and every entry of the page
  table leads to a tracked frame that holds the page.
\<close>

definition bpm_inv :: "BufferPoolManager \<Rightarrow> bool" where
  "bpm_inv s \<longleftrightarrow>
     queue_wf (replacer s) \<and>
     max_size (replacer s) = pool_size s \<and>
     (\<forall>f. f |\<in>| fmdom (node_store (replacer s)) \<longrightarrow> 0 \<le> f \<and> f < int (pool_size s)) \<and>
     (\<forall>f\<in>set (free_list s). 0 \<le> f \<and> f < int (pool_size s)) \<and>
     distinct (free_list s) \<and>
     (\<forall>f\<in>set (free_list s). f |\<notin>| fmdom (node_store (replacer s))) \<and>
     (\<forall>pid f. fmlookup (page_table s) pid = Some f \<longrightarrow>
        f |\<in>| fmdom (node_store (replacer s)) \<and> page_id (pages s f) = pid)"

section \<open>Persistent trie (src/primer/trie.cpp)\<close>

text \<open>
  A trie node: the map \<open>children_\<close> from key bytes to child nodes and, for a
  \<open>TrieNodeWithValue\<close>, the value. Nodes are immutable once built and shared by pointer,
  so a node is represented by its content. The value type \<open>'v\<close> stands for all values a
  trie can hold; a C++ value type \<open>T\<close> is the predicate telling whether a value is of that
  type, which is what the \<open>dynamic_cast\<close> of \<open>Get\<close> tests.

  Modelled from the spec: the classes \<open>TrieNode\<close> and \<open>TrieNodeWithValue\<close> are declared in
  a header that is not among the sources at hand; a node is a value node
  (\<open>is_value_node_\<close>) iff it carries a value, and \<open>Clone\<close> copies the children and the
  value of a node into a new node.
\<close>

datatype 'v TrieNode = TrieNode (children: "(char, 'v TrieNode) fmap") (node_value: "'v option")

definition is_value_node :: "'v TrieNode \<Rightarrow> bool" where
  "is_value_node n = (node_value n \<noteq> None)"

definition Clone :: "'v TrieNode \<Rightarrow> 'v TrieNode" where
  "Clone n = TrieNode (children n) (node_value n)"

text \<open>A trie is its root pointer (\<open>root_\<close>, here \<open>rt\<close>), \<open>None\<close> for the null pointer.\<close>

type_synonym 'v Trie = "'v TrieNode option"

text \<open>
  \<open>FindPath\<close>: the nodes met from the root along the key, up to and including the last
  one that exists.
\<close>

fun FindPath_from :: "'v TrieNode \<Rightarrow> string \<Rightarrow> 'v TrieNode list" where
  "FindPath_from temp_node [] = [temp_node]"
| "FindPath_from temp_node (c # key) =
     (case fmlookup (children temp_node) c of
        Some child \<Rightarrow> temp_node # FindPath_from child key
      | None \<Rightarrow> [temp_node])"

definition FindPath :: "'v Trie \<Rightarrow> string \<Rightarrow> 'v TrieNode list" where
  "FindPath rt key = (case rt of None \<Rightarrow> [] | Some temp_node \<Rightarrow> FindPath_from temp_node key)"

text \<open>The first statement of \<open>Get\<close>, \<open>Put\<close> and \<open>Remove\<close>: one trailing zero byte is dropped.\<close>

definition strip_nul :: "string \<Rightarrow> string" where
  "strip_nul key = (if key \<noteq> [] \<and> last key = CHR 0x00 then butlast key else key)"

definition Get :: "('v \<Rightarrow> bool) \<Rightarrow> 'v Trie \<Rightarrow> string \<Rightarrow> 'v option" where
  "Get T rt key0 =
     (let key = strip_nul key0;
          path = FindPath rt key
      in if length path \<noteq> length key + 1 then None
         else (case node_value (last path) of
                 None \<Rightarrow> None
               | Some v \<Rightarrow> if T v then Some v else None))"

text \<open>
  The loop that links the new nodes, from the last index down to 1:
  \<open>new_nodes[index - 1]->children_.insert_or_assign(key[index - 1], new_nodes[index])\<close>.
  The argument is the index the loop is at.
\<close>

definition insert_or_assign :: "char \<Rightarrow> 'v TrieNode \<Rightarrow> 'v TrieNode \<Rightarrow> 'v TrieNode" where
  "insert_or_assign c child n = TrieNode (fmupd c child (children n)) (node_value n)"

fun link_nodes :: "string \<Rightarrow> 'v TrieNode list \<Rightarrow> nat \<Rightarrow> 'v TrieNode list" where
  "link_nodes key new_nodes 0 = new_nodes"
| "link_nodes key new_nodes (Suc i) =
     link_nodes key
       (new_nodes[i := insert_or_assign (key ! i) (new_nodes ! Suc i) (new_nodes ! i)]) i"

text \<open>
  The first loop of \<open>Put\<close> and the statement after it: one new node per key byte, a copy
  of the node on the path where there is one, and then the value node, which keeps the
  children of the node at the end of the path if the path is complete.
\<close>

definition Put_new_nodes :: "'v TrieNode list \<Rightarrow> string \<Rightarrow> 'v \<Rightarrow> 'v TrieNode list" where
  "Put_new_nodes path key v =
     map (\<lambda>index. if length path > index then Clone (path ! index) else TrieNode fmempty None)
       [0..<length key] @
     [if length path = length key + 1 then TrieNode (children (last path)) (Some v)
      else TrieNode fmempty (Some v)]"

definition Put :: "'v Trie \<Rightarrow> string \<Rightarrow> 'v \<Rightarrow> 'v Trie" where
  "Put rt key0 v =
     (let key = strip_nul key0;
          path = FindPath rt key;
          new_nodes = Put_new_nodes path key v
      in Some (link_nodes key new_nodes (length new_nodes - 1) ! 0))"

text \<open>
  The pruning loop of \<open>Remove\<close>; the argument is \<open>sum\<close> after the first decrement, the
  result its value when the loop is left.
\<close>

fun prune :: "'v TrieNode list \<Rightarrow> nat \<Rightarrow> nat" where
  "prune path 0 = 0"
| "prune path (Suc i) =
     (if \<not> is_value_node (path ! i) \<and> fcard (fmdom (children (path ! i))) = 1
      then prune path i else Suc i)"

text \<open>The number of nodes of the path that \<open>Remove\<close> keeps (\<open>sum\<close> after the loop).\<close>

definition Remove_sum :: "'v TrieNode list \<Rightarrow> nat" where
  "Remove_sum path =
     (if children (path ! (length path - 1)) = fmempty
      then prune path (length path - 1) else length path)"

text \<open>
  The new nodes of \<open>Remove\<close>: copies of the kept nodes but the last, and the last kept
  node, without its value if it is the terminal node and without the child on the path
  otherwise.
\<close>

definition Remove_new_nodes :: "'v TrieNode list \<Rightarrow> string \<Rightarrow> nat \<Rightarrow> 'v TrieNode list" where
  "Remove_new_nodes path key sum0 =
     map (\<lambda>index. Clone (path ! index)) [0..<sum0 - 1] @
     [if sum0 = length key + 1 then TrieNode (children (path ! (sum0 - 1))) None
      else (let n = Clone (path ! (sum0 - 1))
            in TrieNode (fmdrop (key ! (sum0 - 1)) (children n)) (node_value n))]"

text \<open>\<open>Remove\<close> from the pruning loop on, for a path that is complete.\<close>

definition Remove_build :: "'v TrieNode list \<Rightarrow> string \<Rightarrow> 'v Trie" where
  "Remove_build path key =
     (let sum = Remove_sum path
      in if sum \<le> 0 then None
         else Some (link_nodes key (Remove_new_nodes path key sum) (sum - 1) ! 0))"

definition Remove :: "'v Trie \<Rightarrow> string \<Rightarrow> 'v Trie" where
  "Remove rt key0 =
     (let key = strip_nul key0;
          path = FindPath rt key
      in if length path \<noteq> length key + 1 \<or> \<not> is_value_node (last path) then rt
         else Remove_build path key)"

subsection \<open>The operations by recursion over the key\<close>

text \<open>
  What \<open>Put\<close> builds, described by recursion over the key: at the end of the key a value
  node that keeps the children of the node that was there; on the way a copy of the
  existing node, or a new node where the path has run out, with the child under the next
  key byte replaced.
\<close>

fun put_node :: "'v TrieNode option \<Rightarrow> string \<Rightarrow> 'v \<Rightarrow> 'v TrieNode" where
  "put_node nopt [] v =
     TrieNode (case nopt of None \<Rightarrow> fmempty | Some n \<Rightarrow> children n) (Some v)"
| "put_node nopt (c # key) v =
     (let n = (case nopt of None \<Rightarrow> TrieNode fmempty None | Some n \<Rightarrow> n)
      in TrieNode (fmupd c (put_node (fmlookup (children n) c) key v) (children n)) (node_value n))"

text \<open>
  What \<open>Remove\<close> builds for a key that leads to a value node, as the spec words it: the
  terminal node loses its value and keeps its children, unless it has no children, in which
  case it is pruned; an ancestor whose child on the path has been pruned is pruned as well
  if it is a non-value node with exactly one child, and otherwise loses that child; an
  ancestor whose child has not been pruned gets the new child. \<open>None\<close> means pruned.
\<close>

fun remove_node :: "'v TrieNode \<Rightarrow> string \<Rightarrow> 'v TrieNode option" where
  "remove_node n [] =
     (if children n = fmempty then None else Some (TrieNode (children n) None))"
| "remove_node n (c # key) =
     (case fmlookup (children n) c of
        None \<Rightarrow> Some n
      | Some child \<Rightarrow>
          (case remove_node child key of
             None \<Rightarrow>
               (if \<not> is_value_node n \<and> fcard (fmdom (children n)) = 1 then None
                else Some (TrieNode (fmdrop c (children n)) (node_value n)))
           | Some child' \<Rightarrow> Some (TrieNode (fmupd c child' (children n)) (node_value n))))"

text \<open>The node a key leads to, if the whole key can be followed.\<close>

fun lookup_node :: "'v TrieNode \<Rightarrow> string \<Rightarrow> 'v TrieNode option" where
  "lookup_node n [] = Some n"
| "lookup_node n (c # key) =
     (case fmlookup (children n) c of None \<Rightarrow> None | Some child \<Rightarrow> lookup_node child key)"

definition lookup_trie :: "'v Trie \<Rightarrow> string \<Rightarrow> 'v TrieNode option" where
  "lookup_trie rt key = (case rt of None \<Rightarrow> None | Some n \<Rightarrow> lookup_node n key)"

text \<open>
  A key is bound in a trie if, with its trailing zero byte dropped, it leads to a value
  node.
\<close>

definition bound :: "'v Trie \<Rightarrow> string \<Rightarrow> bool" where
  "bound rt key =
     (case lookup_trie rt (strip_nul key) of None \<Rightarrow> False | Some m \<Rightarrow> is_value_node m)"

text \<open>No node of the trie is a leaf without a value.\<close>

primrec no_nonvalue_leaf :: "'v TrieNode \<Rightarrow> bool" where
  "no_nonvalue_leaf (TrieNode ch v) =
     ((v = None \<longrightarrow> ch \<noteq> fmempty) \<and> fmpred (\<lambda>_ b. b) (fmmap no_nonvalue_leaf ch))"

definition wf_trie :: "'v Trie \<Rightarrow> bool" where
  "wf_trie rt = (case rt of None \<Rightarrow> True | Some n \<Rightarrow> no_nonvalue_leaf n)"

text \<open>A node that the pruning loop of \<open>Remove\<close> passes: no value and exactly one child.\<close>

definition prunable :: "'v TrieNode \<Rightarrow> bool" where
  "prunable n = (\<not> is_value_node n \<and> fcard (fmdom (children n)) = 1)"

text \<open>The tries that can be built: from the empty trie by \<open>Put\<close> and \<open>Remove\<close>.\<close>

inductive reachable :: "'v Trie \<Rightarrow> bool" where
  empty: "reachable None"
| put: "reachable t \<Longrightarrow> reachable (Put t key v)"
| remove: "reachable t \<Longrightarrow> reachable (Remove t key)"

text \<open>The links of a list of nodes, from the front: the result of the linking loop.\<close>

fun link_rec :: "string \<Rightarrow> nat \<Rightarrow> 'v TrieNode \<Rightarrow> 'v TrieNode list \<Rightarrow> 'v TrieNode" where
  "link_rec key i n [] = n"
| "link_rec key i n (m # ms) = insert_or_assign (key ! i) (link_rec key (Suc i) m ms) n"

section \<open>The trie with its nodes in a heap\<close>

text \<open>
  To state that \<open>Put\<close> and \<open>Remove\<close> never change a node that exists, the nodes are placed
  in a heap. An address is an index into the list of all nodes allocated so far;
  \<open>std::make_shared\<close> and \<open>Clone\<close> append a node and return its address; a
  \<open>std::shared_ptr\<close> is an address, the null pointer is \<open>None\<close>. The only statement of
  the source that writes to a node after its construction is the \<open>insert_or_assign\<close> of the
  linking loops. Nothing is ever freed in the model: all trie versions stay alive.
\<close>

datatype 'v HeapNode = HeapNode (h_children: "(char, nat) fmap") (h_value: "'v option")

type_synonym 'v heap = "'v HeapNode list"

definition h_is_value_node :: "'v HeapNode \<Rightarrow> bool" where
  "h_is_value_node n = (h_value n \<noteq> None)"

fun h_FindPath_from :: "'v heap \<Rightarrow> nat \<Rightarrow> string \<Rightarrow> nat list" where
  "h_FindPath_from h temp_node [] = [temp_node]"
| "h_FindPath_from h temp_node (c # key) =
     (case fmlookup (h_children (h ! temp_node)) c of
        Some child \<Rightarrow> temp_node # h_FindPath_from h child key
      | None \<Rightarrow> [temp_node])"

definition h_FindPath :: "'v heap \<Rightarrow> nat option \<Rightarrow> string \<Rightarrow> nat list" where
  "h_FindPath h rt key = (case rt of None \<Rightarrow> [] | Some temp_node \<Rightarrow> h_FindPath_from h temp_node key)"

definition h_Get :: "('v \<Rightarrow> bool) \<Rightarrow> 'v heap \<Rightarrow> nat option \<Rightarrow> string \<Rightarrow> 'v option" where
  "h_Get T h rt key0 =
     (let key = strip_nul key0;
          path = h_FindPath h rt key
      in if length path \<noteq> length key + 1 then None
         else (case h_value (h ! last path) of
                 None \<Rightarrow> None
               | Some v \<Rightarrow> if T v then Some v else None))"

text \<open>
  Allocation of a node: the heap grows by the node, the list of new nodes by its address.
\<close>

definition emplace_back :: "'v HeapNode \<Rightarrow> 'v heap \<times> nat list \<Rightarrow> 'v heap \<times> nat list" where
  "emplace_back n s = (fst s @ [n], snd s @ [length (fst s)])"

text \<open>The linking loop: the node at \<open>new_nodes[index - 1]\<close> is written.\<close>

fun h_link_nodes :: "string \<Rightarrow> nat list \<Rightarrow> nat \<Rightarrow> 'v heap \<Rightarrow> 'v heap" where
  "h_link_nodes key new_nodes 0 h = h"
| "h_link_nodes key new_nodes (Suc i) h =
     h_link_nodes key new_nodes i
       (h[new_nodes ! i :=
            HeapNode (fmupd (key ! i) (new_nodes ! Suc i) (h_children (h ! (new_nodes ! i))))
                     (h_value (h ! (new_nodes ! i)))])"

text \<open>One round of the first loop of \<open>Put\<close>.\<close>

definition h_Put_step :: "nat list \<Rightarrow> nat \<Rightarrow> 'v heap \<times> nat list \<Rightarrow> 'v heap \<times> nat list" where
  "h_Put_step path index s =
     (if length path > index then emplace_back (fst s ! (path ! index)) s
      else emplace_back (HeapNode fmempty None) s)"

definition h_Put :: "'v heap \<Rightarrow> nat option \<Rightarrow> string \<Rightarrow> 'v \<Rightarrow> 'v heap \<times> nat option" where
  "h_Put h rt key0 v =
     (let key = strip_nul key0;
          path = h_FindPath h rt key;
          s1 = fold (h_Put_step path) [0..<length key] (h, []);
          s2 = (if length path = length key + 1
                then emplace_back (HeapNode (h_children (fst s1 ! last path)) (Some v)) s1
                else emplace_back (HeapNode fmempty (Some v)) s1);
          new_nodes = snd s2
      in (h_link_nodes key new_nodes (length new_nodes - 1) (fst s2), Some (new_nodes ! 0)))"

fun h_prune :: "'v heap \<Rightarrow> nat list \<Rightarrow> nat \<Rightarrow> nat" where
  "h_prune h path 0 = 0"
| "h_prune h path (Suc i) =
     (if \<not> h_is_value_node (h ! (path ! i)) \<and> fcard (fmdom (h_children (h ! (path ! i)))) = 1
      then h_prune h path i else Suc i)"

definition h_Remove_step :: "nat list \<Rightarrow> nat \<Rightarrow> 'v heap \<times> nat list \<Rightarrow> 'v heap \<times> nat list" where
  "h_Remove_step path index s = emplace_back (fst s ! (path ! index)) s"

definition h_Remove :: "'v heap \<Rightarrow> nat option \<Rightarrow> string \<Rightarrow> 'v heap \<times> nat option" where
  "h_Remove h rt key0 =
     (let key = strip_nul key0;
          path = h_FindPath h rt key
      in if length path \<noteq> length key + 1 \<or> \<not> h_is_value_node (h ! last path) then (h, rt)
         else
           (let sum = (if h_children (h ! (path ! (length path - 1))) = fmempty
                       then h_prune h path (length path - 1) else length path)
            in if sum \<le> 0 then (h, None)
               else
                 (let s1 = fold (h_Remove_step path) [0..<sum - 1] (h, []);
                      s2 = (if sum = length key + 1
                            then emplace_back (HeapNode (h_children (fst s1 ! (path ! (sum - 1)))) None) s1
                            else emplace_back
                                   (HeapNode (fmdrop (key ! (sum - 1))
                                                (h_children (fst s1 ! (path ! (sum - 1)))))
                                             (h_value (fst s1 ! (path ! (sum - 1))))) s1);
                      new_nodes = snd s2
                  in (h_link_nodes key new_nodes (sum - 1) (fst s2), Some (new_nodes ! 0)))))"

text \<open>
  A heap is closed if every child pointer in it points into it; a root is valid if it is
  null or points into the heap.
\<close>

definition heap_ok :: "'v heap \<Rightarrow> bool" where
  "heap_ok h = list_all (\<lambda>n. fmpred (\<lambda>c a. a < length h) (h_children n)) h"

definition root_ok :: "'v heap \<Rightarrow> nat option \<Rightarrow> bool" where
  "root_ok h rt = (case rt of None \<Rightarrow> True | Some a \<Rightarrow> a < length h)"

text \<open>A sequence of operations, each applied to the trie the one before it returned.\<close>

datatype 'v trie_op = Op_Put string 'v | Op_Remove string

fun h_apply :: "'v trie_op \<Rightarrow> 'v heap \<times> nat option \<Rightarrow> 'v heap \<times> nat option" where
  "h_apply (Op_Put key v) s = h_Put (fst s) (snd s) key v"
| "h_apply (Op_Remove key) s = h_Remove (fst s) (snd s) key"

fun h_run :: "'v trie_op list \<Rightarrow> 'v heap \<times> nat option \<Rightarrow> 'v heap \<times> nat option" where
  "h_run [] s = s"
| "h_run (op # ops) s = h_run ops (h_apply op s)"

text \<open>
  What holds while \<open>Put\<close> or \<open>Remove\<close>, started on the heap \<open>h\<close>, allocates its new
  nodes: the heap is \<open>h\<close> followed by the new nodes, the list of new nodes holds their
  addresses in order, and the children of the new nodes point into \<open>h\<close>.
\<close>

definition alloc_inv :: "'v heap \<Rightarrow> 'v heap \<times> nat list \<Rightarrow> bool" where
  "alloc_inv h s \<longleftrightarrow>
     (\<exists>xs. fst s = h @ xs \<and> snd s = [length h..<length h + length xs] \<and>
           (\<forall>n\<in>set xs. \<forall>c b. fmlookup (h_children n) c = Some b \<longrightarrow> b < length h))"

text \<open>An example heap: the trie that binds \<open>"ab"\<close> to 1, its root at address 0.\<close>

definition heap_ab :: "nat heap" where
  "heap_ab = [HeapNode (fmupd CHR ''a'' 1 fmempty) None,
              HeapNode (fmupd CHR ''b'' 2 fmempty) None,
              HeapNode fmempty (Some 1)]"

section \<open>Properties of the replacer\<close>

lemma Comparator_irrefl: "\<not> Comparator k n n"
  by (simp add: Comparator_def)

lemma Comparator_0: "Comparator 0 a b \<longleftrightarrow> last (history a) < last (history b)"
  by (simp add: Comparator_def)

lemma Comparator_trans:
  "length (history a) \<le> max 1 k \<Longrightarrow> length (history b) \<le> max 1 k \<Longrightarrow>
   length (history c) \<le> max 1 k \<Longrightarrow>
   Comparator k a b \<Longrightarrow> Comparator k b c \<Longrightarrow> Comparator k a c"
proof (cases "k = 0")
  case True
  assume "Comparator k a b" "Comparator k b c"
  then show ?thesis using True by (simp add: Comparator_0)
next
  case False
  assume "length (history a) \<le> max 1 k" "length (history b) \<le> max 1 k"
    "length (history c) \<le> max 1 k" "Comparator k a b" "Comparator k b c"
  then show ?thesis using False by (auto simp: Comparator_def split: if_splits)
qed

lemma Comparator_total:
  "length (history a) \<le> max 1 k \<Longrightarrow> length (history b) \<le> max 1 k \<Longrightarrow>
   last (history a) \<noteq> last (history b) \<Longrightarrow> Comparator k a b \<or> Comparator k b a"
proof (cases "k = 0")
  case True
  assume "last (history a) \<noteq> last (history b)"
  then show ?thesis using True by (auto simp: Comparator_0)
next
  case False
  assume "length (history a) \<le> max 1 k" "length (history b) \<le> max 1 k"
    "last (history a) \<noteq> last (history b)"
  then show ?thesis using False by (auto simp: Comparator_def split: if_splits)
qed

lemma set_emplace_sorted:
  assumes "sorted_wrt lt q"
    and "\<forall>y\<in>set q. lt x y \<or> lt y x"
    and "\<And>a b c. a \<in> insert x (set q) \<Longrightarrow> b \<in> insert x (set q) \<Longrightarrow> c \<in> insert x (set q) \<Longrightarrow>
           lt a b \<Longrightarrow> lt b c \<Longrightarrow> lt a c"
  shows "sorted_wrt lt (fst (set_emplace lt x q)) \<and>
         set (fst (set_emplace lt x q)) = insert x (set q) \<and>
         snd (set_emplace lt x q) = x"
  using assms
proof (induction q)
  case Nil
  then show ?case by simp
next
  case (Cons y ys)
  have s: "sorted_wrt lt ys" and yz: "\<forall>z\<in>set ys. lt y z"
    using Cons.prems(1) by simp_all
  have tot: "\<forall>z\<in>set ys. lt x z \<or> lt z x"
    using Cons.prems(2) by simp
  have tr: "\<And>a b c. a \<in> insert x (set ys) \<Longrightarrow> b \<in> insert x (set ys) \<Longrightarrow> c \<in> insert x (set ys) \<Longrightarrow>
           lt a b \<Longrightarrow> lt b c \<Longrightarrow> lt a c"
  proof -
    fix a b c
    assume "a \<in> insert x (set ys)" "b \<in> insert x (set ys)" "c \<in> insert x (set ys)"
      and "lt a b" "lt b c"
    then show "lt a c" using Cons.prems(3) [of a b c] by auto
  qed
  have ih: "sorted_wrt lt (fst (set_emplace lt x ys)) \<and>
         set (fst (set_emplace lt x ys)) = insert x (set ys) \<and>
         snd (set_emplace lt x ys) = x"
    by (rule Cons.IH [OF s tot tr])
  show ?case
  proof (cases "lt x y")
    case True
    have "\<forall>z\<in>set ys. lt x z"
    proof
      fix z assume z: "z \<in> set ys"
      then have "lt y z" using yz by simp
      with True show "lt x z"
        using Cons.prems(3) [of x y z] z by simp
    qed
    with True Cons.prems(1) show ?thesis by simp
  next
    case False
    then have yx: "lt y x" using Cons.prems(2) by simp
    obtain q' it where e: "set_emplace lt x ys = (q', it)" by (cases "set_emplace lt x ys")
    with ih have q': "sorted_wrt lt q'" "set q' = insert x (set ys)" "it = x" by simp_all
    have "\<forall>z\<in>set q'. lt y z" using q'(2) yx yz by simp
    with False yx e q' show ?thesis by (simp add: insert_commute)
  qed
qed

lemma sorted_wrt_remove1: "sorted_wrt P xs \<Longrightarrow> sorted_wrt P (remove1 x xs)"
  by (induction xs) (auto dest: notin_set_remove1)

lemma sorted_wrt_irrefl_distinct: "(\<And>x. \<not> P x x) \<Longrightarrow> sorted_wrt P xs \<Longrightarrow> distinct xs"
  by (induction xs) auto

lemma queue_less_cong:
  "history (deref ns' a) = history (deref ns a) \<Longrightarrow> history (deref ns' b) = history (deref ns b) \<Longrightarrow>
   queue_less k ns' a b = queue_less k ns a b"
  by (simp add: queue_less_def Comparator_def)

lemma sorted_wrt_queue_less_cong:
  "\<forall>a\<in>set q. history (deref ns' a) = history (deref ns a) \<Longrightarrow>
   sorted_wrt (queue_less k ns') q = sorted_wrt (queue_less k ns) q"
  by (induction q) (auto simp: queue_less_def Comparator_def)

lemma deref_fmupd: "deref (fmupd f n ns) a = (if f = a then n else deref ns a)"
  by (simp add: deref_def)

lemma deref_fmdrop: "a \<noteq> f \<Longrightarrow> deref (fmdrop f ns) a = deref ns a"
  by (simp add: deref_def)

lemma emplace_queue:
  assumes s: "sorted_wrt (queue_less k ns) q"
    and nf: "f \<notin> set q"
    and len: "length (history n1) \<le> max 1 k"
    and others: "\<forall>a\<in>set q. length (history (deref ns a)) \<le> max 1 k \<and>
                   last (history (deref ns a)) \<noteq> last (history n1)"
  shows "sorted_wrt (queue_less k (fmupd f n1 ns)) (fst (set_emplace (queue_less k (fmupd f n1 ns)) f q)) \<and>
         set (fst (set_emplace (queue_less k (fmupd f n1 ns)) f q)) = insert f (set q) \<and>
         snd (set_emplace (queue_less k (fmupd f n1 ns)) f q) = f"
proof (rule set_emplace_sorted)
  have "\<forall>a\<in>set q. history (deref (fmupd f n1 ns) a) = history (deref ns a)"
    using nf by (auto simp: deref_fmupd)
  from sorted_wrt_queue_less_cong [OF this] s
  show "sorted_wrt (queue_less k (fmupd f n1 ns)) q" by simp
next
  show "\<forall>y\<in>set q. queue_less k (fmupd f n1 ns) f y \<or> queue_less k (fmupd f n1 ns) y f"
  proof
    fix y assume y: "y \<in> set q"
    then have "y \<noteq> f" using nf by auto
    then have d: "deref (fmupd f n1 ns) y = deref ns y" "deref (fmupd f n1 ns) f = n1"
      by (simp_all add: deref_fmupd)
    from others y have "length (history (deref ns y)) \<le> max 1 k"
      "last (history n1) \<noteq> last (history (deref ns y))" by auto
    from Comparator_total [OF len this]
    show "queue_less k (fmupd f n1 ns) f y \<or> queue_less k (fmupd f n1 ns) y f"
      by (simp add: queue_less_def d)
  qed
next
  fix a b c
  assume a: "a \<in> insert f (set q)" and b: "b \<in> insert f (set q)" and c: "c \<in> insert f (set q)"
    and ab: "queue_less k (fmupd f n1 ns) a b" and bc: "queue_less k (fmupd f n1 ns) b c"
  have l: "\<And>z. z \<in> insert f (set q) \<Longrightarrow> length (history (deref (fmupd f n1 ns) z)) \<le> max 1 k"
    using len others by (auto simp: deref_fmupd)
  show "queue_less k (fmupd f n1 ns) a c"
    using Comparator_trans [OF l [OF a] l [OF b] l [OF c]] ab bc
    by (simp add: queue_less_def)
qed

lemma replacer_inv_iff:
  "replacer_inv r \<longleftrightarrow>
     (\<forall>f n. fmlookup (node_store r) f = Some n \<longrightarrow> node_ok r f n) \<and>
     (\<forall>f g n m. fmlookup (node_store r) f = Some n \<longrightarrow> fmlookup (node_store r) g = Some m \<longrightarrow>
          f \<noteq> g \<longrightarrow> set (history n) \<inter> set (history m) = {}) \<and>
     sorted_wrt (queue_less (lru_k r) (node_store r)) (evict_queue r) \<and>
     set (evict_queue r) = evictable_frames r"
  unfolding replacer_inv_def fmpred_iff by blast

lemma replacer_inv_distinct: "replacer_inv r \<Longrightarrow> distinct (evict_queue r)"
  unfolding replacer_inv_def
  by (rule sorted_wrt_irrefl_distinct [where P = "queue_less (lru_k r) (node_store r)"])
     (auto simp: queue_less_def Comparator_irrefl)

lemma replacer_inv_init: "replacer_inv (LRUKReplacer_init n k)"
  by (simp add: replacer_inv_def LRUKReplacer_init_def evictable_frames_def)

lemma Evict_empty: "evict_queue r = [] \<Longrightarrow> Evict r = (None, r)"
  by (simp add: Evict_def)

lemma Evict_Cons:
  assumes inv: "replacer_inv r" and q: "evict_queue r = v # q"
  shows "Evict r = (Some v, r\<lparr>evict_queue := q, node_store := fmdrop v (node_store r),
                                evictable_size := evictable_size r - 1\<rparr>)"
proof -
  have "v \<in> evictable_frames r" using inv q by (auto simp: replacer_inv_iff)
  then obtain n where "fmlookup (node_store r) v = Some n" by (auto simp: evictable_frames_def)
  then have "fid (deref (node_store r) v) = v"
    using inv by (auto simp: replacer_inv_iff node_ok_def deref_def)
  then show ?thesis using q by (simp add: Evict_def)
qed

lemma Evict_inv:
  assumes inv: "replacer_inv r"
  shows "replacer_inv (snd (Evict r))"
proof (cases "evict_queue r")
  case Nil
  then show ?thesis using inv by (simp add: Evict_empty)
next
  case (Cons v q)
  let ?r' = "r\<lparr>evict_queue := q, node_store := fmdrop v (node_store r),
                                evictable_size := evictable_size r - 1\<rparr>"
  have d: "distinct (v # q)" using replacer_inv_distinct [OF inv] Cons by simp
  have ok: "\<forall>f n. fmlookup (node_store ?r') f = Some n \<longrightarrow> node_ok ?r' f n"
    using inv by (auto simp: replacer_inv_iff node_ok_def split: if_splits)
  have dj: "\<forall>f g n m. fmlookup (node_store ?r') f = Some n \<longrightarrow> fmlookup (node_store ?r') g = Some m \<longrightarrow>
          f \<noteq> g \<longrightarrow> set (history n) \<inter> set (history m) = {}"
  proof (intro allI impI)
    fix f g n m
    assume "fmlookup (node_store ?r') f = Some n" "fmlookup (node_store ?r') g = Some m" "f \<noteq> g"
    then have "fmlookup (node_store r) f = Some n" "fmlookup (node_store r) g = Some m" "f \<noteq> g"
      by (auto split: if_splits)
    then show "set (history n) \<inter> set (history m) = {}"
      using inv unfolding replacer_inv_iff by blast
  qed
  have "sorted_wrt (queue_less (lru_k r) (node_store r)) q"
    using inv Cons by (simp add: replacer_inv_iff)
  moreover have "\<forall>a\<in>set q. history (deref (fmdrop v (node_store r)) a) = history (deref (node_store r) a)"
    using d by (auto simp: deref_def)
  ultimately have so: "sorted_wrt (queue_less (lru_k ?r') (node_store ?r')) (evict_queue ?r')"
    using sorted_wrt_queue_less_cong [of q "fmdrop v (node_store r)" "node_store r" "lru_k r"] by simp
  have "evictable_frames ?r' = evictable_frames r - {v}"
    by (auto simp: evictable_frames_def)
  also have "\<dots> = set (v # q) - {v}" using inv Cons by (simp add: replacer_inv_iff)
  also have "\<dots> = set q" using d by auto
  finally have st: "set (evict_queue ?r') = evictable_frames ?r'" by simp
  have "replacer_inv ?r'"
    unfolding replacer_inv_iff using ok dj so st by blast
  then show ?thesis by (simp add: Evict_Cons [OF inv Cons])
qed



lemma push_history_take:
  "length h \<le> k \<Longrightarrow> push_history k ts h = take k (ts # h)"
  by (cases "length h = k") (auto simp: push_history_def Let_def butlast_conv_take)

lemma push_history_max:
  "push_history k ts h = take (max k (length h)) (ts # h)"
  by (auto simp: push_history_def Let_def butlast_conv_take max_def)

lemma push_history_props:
  assumes "h \<noteq> []" "length h \<le> max 1 k"
  shows "push_history k ts h \<noteq> []" "length (push_history k ts h) \<le> max 1 k"
    "set (push_history k ts h) \<subseteq> insert ts (set h)"
proof -
  show "push_history k ts h \<noteq> []" using assms(1) by (simp add: push_history_def Let_def)
  show "length (push_history k ts h) \<le> max 1 k"
    using assms(2) by (simp add: push_history_def Let_def)
  show "set (push_history k ts h) \<subseteq> insert ts (set h)"
    by (auto simp: push_history_def Let_def dest: in_set_butlastD)
qed

lemma queue_emplace_inv:
  assumes inv: "replacer_inv r"
    and nf: "f \<notin> set q0"
    and so: "sorted_wrt (queue_less (lru_k r) (node_store r)) q0"
    and sub: "set q0 \<subseteq> evictable_frames r"
    and len: "length (history n') \<le> max 1 (lru_k r)"
    and ne: "history n' \<noteq> []"
    and dj: "\<forall>g m. g \<noteq> f \<longrightarrow> fmlookup (node_store r) g = Some m \<longrightarrow>
                set (history n') \<inter> set (history m) = {}"
  shows "sorted_wrt (queue_less (lru_k r) (fmupd f n' (node_store r)))
           (fst (set_emplace (queue_less (lru_k r) (fmupd f n' (node_store r))) f q0)) \<and>
         set (fst (set_emplace (queue_less (lru_k r) (fmupd f n' (node_store r))) f q0)) = insert f (set q0) \<and>
         snd (set_emplace (queue_less (lru_k r) (fmupd f n' (node_store r))) f q0) = f"
proof (rule emplace_queue [OF so nf len])
  show "\<forall>a\<in>set q0. length (history (deref (node_store r) a)) \<le> max 1 (lru_k r) \<and>
          last (history (deref (node_store r) a)) \<noteq> last (history n')"
  proof
    fix a assume a: "a \<in> set q0"
    then have af: "a \<noteq> f" using nf by auto
    from a sub obtain m where m: "fmlookup (node_store r) a = Some m"
      by (auto simp: evictable_frames_def)
    then have ok: "node_ok r a m" using inv by (simp add: replacer_inv_iff)
    have d: "deref (node_store r) a = m" using m by (simp add: deref_def)
    have "last (history m) \<in> set (history m)" using ok by (simp add: node_ok_def)
    moreover have "last (history n') \<in> set (history n')" using ne by simp
    moreover have "set (history n') \<inter> set (history m) = {}" using dj af m by blast
    ultimately have "last (history m) \<noteq> last (history n')" by auto
    then show "length (history (deref (node_store r) a)) \<le> max 1 (lru_k r) \<and>
          last (history (deref (node_store r) a)) \<noteq> last (history n')"
      using ok by (simp add: d node_ok_def)
  qed
qed

lemma timestamp_unat_succ:
  fixes c :: timestamp_t
  assumes "c + 1 \<noteq> 0"
  shows "unat (c + 1) = Suc (unat c)"
proof -
  have b: "unat c < 2 ^ 64" using unsigned_less [of c, where ?'a = nat] by simp
  have "unat (c + 1) = Suc (unat c) mod 2 ^ 64" by (simp add: unat_word_ariths)
  moreover have "unat (c + 1) \<noteq> 0" using assms by (simp add: unat_eq_zero)
  ultimately have "Suc (unat c) mod 2 ^ 64 \<noteq> 0" by simp
  then have "Suc (unat c) \<noteq> 2 ^ 64" by auto
  then have "Suc (unat c) < 2 ^ 64" using b by simp
  then show ?thesis by (simp add: unat_word_ariths)
qed

lemma timestamp_succ:
  fixes c :: timestamp_t
  assumes "c + 1 \<noteq> 0"
  shows "c < c + 1"
  using timestamp_unat_succ [OF assms] by (simp add: word_less_nat_alt)

lemma node_ok_later:
  assumes "node_ok r g m" and "lru_k r' = lru_k r" and "current_timestamp r \<le> current_timestamp r'"
  shows "node_ok r' g m"
proof -
  have "\<forall>t\<in>set (history m). t \<le> current_timestamp r'"
  proof
    fix t assume "t \<in> set (history m)"
    then have "t \<le> current_timestamp r" using assms(1) by (simp add: node_ok_def list_all_iff)
    then show "t \<le> current_timestamp r'" using assms(3) by (rule order_trans)
  qed
  then show ?thesis using assms(1,2) by (simp add: node_ok_def list_all_iff)
qed

lemma node_ok_fresh:
  assumes "node_ok r g m" and "current_timestamp r + 1 \<noteq> 0"
  shows "current_timestamp r + 1 \<notin> set (history m)"
proof
  assume "current_timestamp r + 1 \<in> set (history m)"
  then have "current_timestamp r + 1 \<le> current_timestamp r"
    using assms(1) by (simp add: node_ok_def list_all_iff)
  then show False using timestamp_succ [OF assms(2)] by simp
qed

lemma inv_update:
  assumes inv: "replacer_inv r"
    and k: "lru_k r' = lru_k r"
    and c: "current_timestamp r \<le> current_timestamp r'"
    and ns: "node_store r' = fmupd f n' (node_store r)"
    and ok: "node_ok r' f n'"
    and dj: "\<forall>g m. g \<noteq> f \<longrightarrow> fmlookup (node_store r) g = Some m \<longrightarrow>
                set (history n') \<inter> set (history m) = {}"
    and so: "sorted_wrt (queue_less (lru_k r) (fmupd f n' (node_store r))) (evict_queue r')"
    and st: "set (evict_queue r') =
               (if is_evictable n' then insert f (evictable_frames r) else evictable_frames r - {f})"
  shows "replacer_inv r'"
proof -
  have 2: "\<forall>g m. fmlookup (node_store r') g = Some m \<longrightarrow> node_ok r' g m"
  proof (intro allI impI)
    fix g m assume gm: "fmlookup (node_store r') g = Some m"
    show "node_ok r' g m"
    proof (cases "g = f")
      case True
      then show ?thesis using gm ok ns by simp
    next
      case False
      then have "fmlookup (node_store r) g = Some m" using gm ns by simp
      then have "node_ok r g m" using inv by (simp add: replacer_inv_iff)
      then show ?thesis using k c by (rule node_ok_later)
    qed
  qed
  have 3: "\<forall>a b n m. fmlookup (node_store r') a = Some n \<longrightarrow> fmlookup (node_store r') b = Some m \<longrightarrow>
          a \<noteq> b \<longrightarrow> set (history n) \<inter> set (history m) = {}"
  proof (intro allI impI)
    fix a b n m
    assume a: "fmlookup (node_store r') a = Some n" and b: "fmlookup (node_store r') b = Some m"
      and ab: "a \<noteq> b"
    show "set (history n) \<inter> set (history m) = {}"
    proof (cases "a = f")
      case True
      then have "n = n'" "b \<noteq> f" "fmlookup (node_store r) b = Some m" using a b ab ns by auto
      then show ?thesis using dj by blast
    next
      case False
      note af = this
      then have an: "fmlookup (node_store r) a = Some n" using a ns by simp
      show ?thesis
      proof (cases "b = f")
        case True
        then have "m = n'" using b ns by simp
        then show ?thesis using dj af an by blast
      next
        case False
        then have "fmlookup (node_store r) b = Some m" using b ns by simp
        then show ?thesis using inv an ab unfolding replacer_inv_iff by blast
      qed
    qed
  qed
  have 4: "sorted_wrt (queue_less (lru_k r') (node_store r')) (evict_queue r')"
    using so k ns by simp
  have "evictable_frames r' =
          (if is_evictable n' then insert f (evictable_frames r) else evictable_frames r - {f})"
    by (auto simp: evictable_frames_def ns)
  then have 5: "set (evict_queue r') = evictable_frames r'" using st by simp
  show ?thesis unfolding replacer_inv_iff using 2 3 4 5 by blast
qed

lemma inv_others_old:
  assumes inv: "replacer_inv r" and n: "fmlookup (node_store r) f = Some n"
    and nw: "current_timestamp r + 1 \<noteq> 0"
  shows "\<forall>g m. g \<noteq> f \<longrightarrow> fmlookup (node_store r) g = Some m \<longrightarrow>
           insert (current_timestamp r + 1) (set (history n)) \<inter> set (history m) = {}"
proof (intro allI impI)
  fix g m assume gf: "g \<noteq> f" and m: "fmlookup (node_store r) g = Some m"
  have "node_ok r g m" using inv m by (simp add: replacer_inv_iff)
  then have "current_timestamp r + 1 \<notin> set (history m)"
    using nw by (rule node_ok_fresh)
  moreover have "set (history n) \<inter> set (history m) = {}"
    using inv n m gf unfolding replacer_inv_iff by blast
  ultimately show "insert (current_timestamp r + 1) (set (history n)) \<inter> set (history m) = {}"
    by auto
qed

lemma inv_not_in_queue:
  assumes inv: "replacer_inv r"
    and "fmlookup (node_store r) f = None \<or> (\<exists>n. fmlookup (node_store r) f = Some n \<and> \<not> is_evictable n)"
  shows "f \<notin> set (evict_queue r)"
  using assms by (auto simp: replacer_inv_iff evictable_frames_def)

text \<open>
  \<open>RecordAccess\<close> keeps the invariant as long as the timestamp counter does not wrap
  around to 0, which takes \<open>2 ^ 64\<close> calls.
\<close>

lemma RecordAccess_inv:
  assumes inv: "replacer_inv r" and nw: "current_timestamp r + 1 \<noteq> 0"
  shows "replacer_inv (snd (RecordAccess f r))"
proof -
  let ?c = "current_timestamp r" and ?k = "lru_k r" and ?ns = "node_store r" and ?q = "evict_queue r"
  let ?r' = "snd (RecordAccess f r)"
  have lt: "?c < ?c + 1" using nw by (rule timestamp_succ)
  then have le: "?c \<le> ?c + 1" by simp
  have so: "sorted_wrt (queue_less ?k ?ns) ?q" and st: "set ?q = evictable_frames r"
    using inv by (simp_all add: replacer_inv_iff)
  show ?thesis
  proof (cases "fmlookup ?ns f")
    case None
    have fq: "f \<notin> set ?q" using inv_not_in_queue [OF inv] None by simp
    show ?thesis
    proof (cases "fcard (fmdom ?ns) < max_size r")
      case False
      have f1: "lru_k ?r' = ?k" "?c \<le> current_timestamp ?r'" "node_store ?r' = ?ns" "evict_queue ?r' = ?q"
        using None False le by (simp_all add: RecordAccess_def)
      have "\<forall>g m. fmlookup ?ns g = Some m \<longrightarrow> node_ok ?r' g m"
      proof (intro allI impI)
        fix g m assume "fmlookup ?ns g = Some m"
        then have "node_ok r g m" using inv by (simp add: replacer_inv_iff)
        then show "node_ok ?r' g m" using f1(1,2) by (rule node_ok_later)
      qed
      then show ?thesis using inv f1 unfolding replacer_inv_iff evictable_frames_def by simp
    next
      case True
      define n' where "n' = \<lparr>history = [?c + 1], fid = f, is_evictable = True, iter = f\<rparr>"
      have dj: "\<forall>g m. g \<noteq> f \<longrightarrow> fmlookup ?ns g = Some m \<longrightarrow> set (history n') \<inter> set (history m) = {}"
      proof (intro allI impI)
        fix g m assume "g \<noteq> f" and m: "fmlookup ?ns g = Some m"
        have "node_ok r g m" using inv m by (simp add: replacer_inv_iff)
        then have "?c + 1 \<notin> set (history m)" using nw by (rule node_ok_fresh)
        then show "set (history n') \<inter> set (history m) = {}" by (simp add: n'_def)
      qed
      have len: "length (history n') \<le> max 1 ?k" and ne: "history n' \<noteq> []"
        by (simp_all add: n'_def)
      have sub: "set ?q \<subseteq> evictable_frames r" using st by simp
      note E = queue_emplace_inv [OF inv fq so sub len ne dj]
      have f1: "lru_k ?r' = ?k" "?c \<le> current_timestamp ?r'" "current_timestamp ?r' = ?c + 1"
        using None True le by (simp_all add: RecordAccess_def Let_def)
      have f2: "node_store ?r' = fmupd f n' ?ns"
        using None True E by (simp add: RecordAccess_def Let_def n'_def)
      have f3: "evict_queue ?r' = fst (set_emplace (queue_less ?k (fmupd f n' ?ns)) f ?q)"
        using None True by (simp add: RecordAccess_def Let_def n'_def)
      have ok: "node_ok ?r' f n'" using f1 by (simp add: node_ok_def n'_def)
      show ?thesis
      proof (rule inv_update [OF inv f1(1) f1(2) f2 ok dj])
        show "sorted_wrt (queue_less ?k (fmupd f n' ?ns)) (evict_queue ?r')"
          using E by (simp add: f3)
        show "set (evict_queue ?r') =
               (if is_evictable n' then insert f (evictable_frames r) else evictable_frames r - {f})"
          using E st by (simp add: f3 n'_def)
      qed
    qed
  next
    case (Some n)
    have okn: "node_ok r f n" using inv Some by (simp add: replacer_inv_iff)
    define h' where "h' = push_history ?k (?c + 1) (history n)"
    define n' where "n' = n\<lparr>history := h'\<rparr>"
    have hn: "history n \<noteq> []" "length (history n) \<le> max 1 ?k"
      using okn by (simp_all add: node_ok_def)
    have hp: "h' \<noteq> []" "length h' \<le> max 1 ?k" "set h' \<subseteq> insert (?c + 1) (set (history n))"
      unfolding h'_def using push_history_props [OF hn, of "?c + 1"] by simp_all
    have dj: "\<forall>g m. g \<noteq> f \<longrightarrow> fmlookup ?ns g = Some m \<longrightarrow> set (history n') \<inter> set (history m) = {}"
    proof (intro allI impI)
      fix g m assume gf: "g \<noteq> f" and m: "fmlookup ?ns g = Some m"
      from inv_others_old [OF inv Some nw] gf m
      have "insert (?c + 1) (set (history n)) \<inter> set (history m) = {}" by blast
      then show "set (history n') \<inter> set (history m) = {}" using hp(3) by (auto simp: n'_def)
    qed
    have len: "length (history n') \<le> max 1 ?k" and ne: "history n' \<noteq> []"
      using hp by (simp_all add: n'_def)
    have f1: "lru_k ?r' = ?k" "?c \<le> current_timestamp ?r'" "current_timestamp ?r' = ?c + 1"
      using Some le by (simp_all add: RecordAccess_def Let_def)
    have "\<forall>t\<in>set h'. t \<le> ?c + 1"
    proof
      fix t assume "t \<in> set h'"
      then have "t = ?c + 1 \<or> t \<in> set (history n)" using hp(3) by auto
      then show "t \<le> ?c + 1"
      proof
        assume "t = ?c + 1" then show ?thesis by simp
      next
        assume "t \<in> set (history n)"
        then have "t \<le> ?c" using okn by (simp add: node_ok_def list_all_iff)
        then show ?thesis using le by (rule order_trans)
      qed
    qed
    then have ok: "node_ok ?r' f n'"
      using okn hp(1,2) f1 by (simp add: node_ok_def n'_def list_all_iff)
    show ?thesis
    proof (cases "is_evictable n")
      case False
      have fq: "f \<notin> set ?q" using inv_not_in_queue [OF inv] Some False by simp
      have f2: "node_store ?r' = fmupd f n' ?ns" and f3: "evict_queue ?r' = ?q"
        using Some False by (simp_all add: RecordAccess_def Let_def n'_def h'_def)
      have c: "\<forall>a\<in>set ?q. history (deref (fmupd f n' ?ns) a) = history (deref ?ns a)"
        using fq by (auto simp: deref_fmupd)
      show ?thesis
      proof (rule inv_update [OF inv f1(1) f1(2) f2 ok dj])
        show "sorted_wrt (queue_less ?k (fmupd f n' ?ns)) (evict_queue ?r')"
          using sorted_wrt_queue_less_cong [OF c] so by (simp add: f3)
        show "set (evict_queue ?r') =
               (if is_evictable n' then insert f (evictable_frames r) else evictable_frames r - {f})"
          using fq st False by (auto simp: f3 n'_def)
      qed
    next
      case True
      have it: "iter n = f" using okn True by (simp add: node_ok_def)
      have d: "distinct ?q" by (rule replacer_inv_distinct [OF inv])
      have fq: "f \<notin> set (remove1 f ?q)" using d by simp
      have so1: "sorted_wrt (queue_less ?k ?ns) (remove1 f ?q)"
        using so by (rule sorted_wrt_remove1)
      have sub: "set (remove1 f ?q) \<subseteq> evictable_frames r"
        using st set_remove1_subset [of f ?q] by auto
      note E = queue_emplace_inv [OF inv fq so1 sub len ne dj]
      have ni: "\<And>h. n\<lparr>history := h, iter := f\<rparr> = n\<lparr>history := h\<rparr>"
        using it by simp
      have f2: "node_store ?r' = fmupd f n' ?ns"
        using Some True E it
        by (simp add: RecordAccess_def Let_def n'_def h'_def set_erase_def ni)
      have f3: "evict_queue ?r' = fst (set_emplace (queue_less ?k (fmupd f n' ?ns)) f (remove1 f ?q))"
        using Some True it by (simp add: RecordAccess_def Let_def n'_def h'_def set_erase_def)
      have fin: "f \<in> evictable_frames r" using Some True by (auto simp: evictable_frames_def)
      show ?thesis
      proof (rule inv_update [OF inv f1(1) f1(2) f2 ok dj])
        show "sorted_wrt (queue_less ?k (fmupd f n' ?ns)) (evict_queue ?r')"
          using E by (simp add: f3)
        show "set (evict_queue ?r') =
               (if is_evictable n' then insert f (evictable_frames r) else evictable_frames r - {f})"
          using E st d True fin by (auto simp: f3 n'_def)
      qed
    qed
  qed
qed


lemma SetEvictable_inv:
  assumes inv: "replacer_inv r"
  shows "replacer_inv (snd (SetEvictable f b r))"
proof (cases "fmlookup (node_store r) f")
  case None
  then show ?thesis using inv by (simp add: SetEvictable_def)
next
  case (Some n)
  let ?k = "lru_k r" and ?ns = "node_store r" and ?q = "evict_queue r"
  let ?r' = "snd (SetEvictable f b r)"
  have okn: "node_ok r f n" using inv Some by (simp add: replacer_inv_iff)
  have so: "sorted_wrt (queue_less ?k ?ns) ?q" and st: "set ?q = evictable_frames r"
    using inv by (simp_all add: replacer_inv_iff)
  show ?thesis
  proof (cases "is_evictable n = b")
    case True
    then show ?thesis using inv Some by (simp add: SetEvictable_def)
  next
    case False
    note neq = this
    have f1: "lru_k ?r' = ?k" "current_timestamp r \<le> current_timestamp ?r'"
      "current_timestamp ?r' = current_timestamp r"
      using Some by (simp_all add: SetEvictable_def Let_def)
    have dj0: "\<forall>g m. g \<noteq> f \<longrightarrow> fmlookup ?ns g = Some m \<longrightarrow> set (history n) \<inter> set (history m) = {}"
      using inv Some unfolding replacer_inv_iff by blast
    show ?thesis
    proof (cases b)
      case True
      define n' where "n' = n\<lparr>is_evictable := True, iter := f\<rparr>"
      have ne: "\<not> is_evictable n" using neq True by simp
      have fq: "f \<notin> set ?q" using inv_not_in_queue [OF inv] Some ne by simp
      have sub: "set ?q \<subseteq> evictable_frames r" using st by simp
      have len: "length (history (n\<lparr>is_evictable := True\<rparr>)) \<le> max 1 ?k"
        and nem: "history (n\<lparr>is_evictable := True\<rparr>) \<noteq> []"
        using okn by (simp_all add: node_ok_def)
      have dj1: "\<forall>g m. g \<noteq> f \<longrightarrow> fmlookup ?ns g = Some m \<longrightarrow>
                   set (history (n\<lparr>is_evictable := True\<rparr>)) \<inter> set (history m) = {}"
        using dj0 by simp
      note E = queue_emplace_inv [OF inv fq so sub len nem dj1]
      have f2: "node_store ?r' = fmupd f n' ?ns"
        using Some True ne E by (simp add: SetEvictable_def Let_def n'_def)
      have f3: "evict_queue ?r' =
                  fst (set_emplace (queue_less ?k (fmupd f (n\<lparr>is_evictable := True\<rparr>) ?ns)) f ?q)"
        using Some True ne by (simp add: SetEvictable_def Let_def)
      have ok: "node_ok ?r' f n'" using okn f1 by (simp add: node_ok_def n'_def)
      have dj: "\<forall>g m. g \<noteq> f \<longrightarrow> fmlookup ?ns g = Some m \<longrightarrow> set (history n') \<inter> set (history m) = {}"
        using dj0 by (simp add: n'_def)
      have c: "\<forall>a\<in>set (evict_queue ?r'). history (deref (fmupd f n' ?ns) a) =
                 history (deref (fmupd f (n\<lparr>is_evictable := True\<rparr>) ?ns) a)"
        by (simp add: deref_fmupd n'_def)
      show ?thesis
      proof (rule inv_update [OF inv f1(1) f1(2) f2 ok dj])
        show "sorted_wrt (queue_less ?k (fmupd f n' ?ns)) (evict_queue ?r')"
          using sorted_wrt_queue_less_cong [OF c] E by (simp add: f3)
        show "set (evict_queue ?r') =
               (if is_evictable n' then insert f (evictable_frames r) else evictable_frames r - {f})"
          using E st by (simp add: f3 n'_def)
      qed
    next
      case False
      define n' where "n' = n\<lparr>is_evictable := False\<rparr>"
      have ev: "is_evictable n" using neq False by simp
      have it: "iter n = f" using okn ev by (simp add: node_ok_def)
      have d: "distinct ?q" by (rule replacer_inv_distinct [OF inv])
      have f2: "node_store ?r' = fmupd f n' ?ns"
        using Some False ev by (simp add: SetEvictable_def Let_def n'_def)
      have f3: "evict_queue ?r' = remove1 f ?q"
        using Some False ev it by (simp add: SetEvictable_def Let_def set_erase_def)
      have ok: "node_ok ?r' f n'" using okn f1 by (simp add: node_ok_def n'_def)
      have dj: "\<forall>g m. g \<noteq> f \<longrightarrow> fmlookup ?ns g = Some m \<longrightarrow> set (history n') \<inter> set (history m) = {}"
        using dj0 by (simp add: n'_def)
      have c: "\<forall>a\<in>set (remove1 f ?q). history (deref (fmupd f n' ?ns) a) = history (deref ?ns a)"
        using Some by (simp add: deref_fmupd n'_def deref_def)
      show ?thesis
      proof (rule inv_update [OF inv f1(1) f1(2) f2 ok dj])
        show "sorted_wrt (queue_less ?k (fmupd f n' ?ns)) (evict_queue ?r')"
          using sorted_wrt_queue_less_cong [OF c] sorted_wrt_remove1 [OF so] by (simp add: f3)
        show "set (evict_queue ?r') =
               (if is_evictable n' then insert f (evictable_frames r) else evictable_frames r - {f})"
          using st d by (simp add: f3 n'_def)
      qed
    qed
  qed
qed

lemma Remove_node_inv:
  assumes inv: "replacer_inv r"
  shows "replacer_inv (snd (Remove_node f r))"
proof (cases "fmlookup (node_store r) f")
  case None
  then show ?thesis using inv by (simp add: Remove_node_def)
next
  case (Some n)
  let ?k = "lru_k r" and ?ns = "node_store r" and ?q = "evict_queue r"
  let ?r' = "snd (Remove_node f r)"
  show ?thesis
  proof (cases "is_evictable n")
    case False
    then show ?thesis using inv Some by (simp add: Remove_node_def)
  next
    case True
    have okn: "node_ok r f n" using inv Some by (simp add: replacer_inv_iff)
    have it: "iter n = f" using okn True by (simp add: node_ok_def)
    have so: "sorted_wrt (queue_less ?k ?ns) ?q" and st: "set ?q = evictable_frames r"
      using inv by (simp_all add: replacer_inv_iff)
    have d: "distinct ?q" by (rule replacer_inv_distinct [OF inv])
    have f1: "lru_k ?r' = ?k" "current_timestamp ?r' = current_timestamp r"
      "node_store ?r' = fmdrop f ?ns" "evict_queue ?r' = remove1 f ?q"
      using Some True it by (simp_all add: Remove_node_def set_erase_def)
    have 2: "\<forall>g m. fmlookup (node_store ?r') g = Some m \<longrightarrow> node_ok ?r' g m"
    proof (intro allI impI)
      fix g m assume "fmlookup (node_store ?r') g = Some m"
      then have "fmlookup ?ns g = Some m" by (simp add: f1 split: if_splits)
      then have "node_ok r g m" using inv by (simp add: replacer_inv_iff)
      then show "node_ok ?r' g m" using f1 by (simp add: node_ok_def)
    qed
    have 3: "\<forall>a b x y. fmlookup (node_store ?r') a = Some x \<longrightarrow> fmlookup (node_store ?r') b = Some y \<longrightarrow>
          a \<noteq> b \<longrightarrow> set (history x) \<inter> set (history y) = {}"
    proof (intro allI impI)
      fix a b x y
      assume "fmlookup (node_store ?r') a = Some x" "fmlookup (node_store ?r') b = Some y" "a \<noteq> b"
      then have "fmlookup ?ns a = Some x" "fmlookup ?ns b = Some y" "a \<noteq> b"
        by (simp_all add: f1 split: if_splits)
      then show "set (history x) \<inter> set (history y) = {}"
        using inv unfolding replacer_inv_iff by blast
    qed
    have c: "\<forall>a\<in>set (remove1 f ?q). history (deref (fmdrop f ?ns) a) = history (deref ?ns a)"
      using d by (auto simp: deref_def)
    have 4: "sorted_wrt (queue_less (lru_k ?r') (node_store ?r')) (evict_queue ?r')"
      using sorted_wrt_queue_less_cong [OF c] sorted_wrt_remove1 [OF so] by (simp add: f1)
    have "evictable_frames ?r' = evictable_frames r - {f}"
      by (auto simp: evictable_frames_def f1)
    then have 5: "set (evict_queue ?r') = evictable_frames ?r'"
      using st d by (simp add: f1)
    show ?thesis unfolding replacer_inv_iff using 2 3 4 5 by blast
  qed
qed


lemma RecordAccess_timestamp:
  "current_timestamp (snd (RecordAccess f r)) = current_timestamp r + 1"
  by (simp add: RecordAccess_def Let_def split: option.splits)

text \<open>A run of fewer than \<open>2 ^ 64\<close> accesses from a fresh replacer keeps the invariant.\<close>

lemma accesses_inv:
  "replacer_inv r \<Longrightarrow> unat (current_timestamp r) + length fs < 2 ^ 64 \<Longrightarrow>
   replacer_inv (accesses fs r)"
proof (induction fs arbitrary: r)
  case Nil
  then show ?case by simp
next
  case (Cons f fs)
  have s: "unat (current_timestamp r + 1) = Suc (unat (current_timestamp r))"
    using Cons.prems(2) by (simp add: unat_word_ariths)
  then have nw: "current_timestamp r + 1 \<noteq> 0" by (auto simp del: unat_eq_zero)
  have "replacer_inv (accesses fs (snd (RecordAccess f r)))"
  proof (rule Cons.IH)
    show "replacer_inv (snd (RecordAccess f r))" using Cons.prems(1) nw by (rule RecordAccess_inv)
    show "unat (current_timestamp (snd (RecordAccess f r))) + length fs < 2 ^ 64"
      using Cons.prems(2) s by (simp add: RecordAccess_timestamp)
  qed
  then show ?case by simp
qed

subsection \<open>The queue stays well formed, whatever the timestamps\<close>

lemma queue_wf_iff:
  "queue_wf r \<longleftrightarrow>
     distinct (evict_queue r) \<and>
     (\<forall>f n. fmlookup (node_store r) f = Some n \<longrightarrow> fid n = f) \<and>
     (\<forall>f\<in>set (evict_queue r). \<exists>n. fmlookup (node_store r) f = Some n \<and> is_evictable n \<and> iter n = f)"
  by (auto simp: queue_wf_def fmpred_iff list_all_iff split: option.splits)

lemma set_emplace_props:
  "x \<notin> set q \<Longrightarrow> distinct q \<Longrightarrow>
   distinct (fst (set_emplace lt x q)) \<and> set (fst (set_emplace lt x q)) \<subseteq> insert x (set q) \<and>
   (x \<in> set (fst (set_emplace lt x q)) \<longrightarrow> snd (set_emplace lt x q) = x)"
  by (induction q) (auto split: prod.splits)

lemma queue_wf_init: "queue_wf (LRUKReplacer_init n k)"
  by (simp add: queue_wf_def LRUKReplacer_init_def)

lemma replacer_inv_queue_wf: "replacer_inv r \<Longrightarrow> queue_wf r"
  unfolding queue_wf_iff
  using replacer_inv_distinct [of r]
  by (auto simp: replacer_inv_iff evictable_frames_def node_ok_def)

lemma Evict_Cons_wf:
  assumes wf: "queue_wf r" and q: "evict_queue r = v # q"
  shows "Evict r = (Some v, r\<lparr>evict_queue := q, node_store := fmdrop v (node_store r),
                                evictable_size := evictable_size r - 1\<rparr>)"
proof -
  obtain n where "fmlookup (node_store r) v = Some n" "fid n = v"
    using wf q by (auto simp: queue_wf_iff)
  then have "fid (deref (node_store r) v) = v" by (simp add: deref_def)
  then show ?thesis using q by (simp add: Evict_def)
qed

lemma Evict_wf:
  assumes wf: "queue_wf r"
  shows "queue_wf (snd (Evict r))"
proof (cases "evict_queue r")
  case Nil
  then show ?thesis using wf by (simp add: Evict_empty)
next
  case (Cons v q)
  show ?thesis
    using wf Cons unfolding Evict_Cons_wf [OF wf Cons] queue_wf_iff
    by (auto split: if_splits)
qed

lemma queue_wf_emplace:
  assumes wf: "queue_wf r"
    and sub: "set qa \<subseteq> set (evict_queue r)" and d: "distinct qa" and nf: "f \<notin> set qa"
    and n: "fid n' = f" "is_evictable n'"
    and r': "evict_queue r' = fst (set_emplace lt f qa)"
            "node_store r' = fmupd f (n'\<lparr>iter := snd (set_emplace lt f qa)\<rparr>) (node_store r)"
  shows "queue_wf r'"
proof -
  note E = set_emplace_props [OF nf d, of lt]
  show ?thesis
    unfolding queue_wf_iff
  proof (intro conjI allI impI ballI)
    show "distinct (evict_queue r')" using E by (simp add: r')
  next
    fix g m assume "fmlookup (node_store r') g = Some m"
    then show "fid m = g" using wf n by (auto simp: r' queue_wf_iff split: if_splits)
  next
    fix g assume g: "g \<in> set (evict_queue r')"
    show "\<exists>m. fmlookup (node_store r') g = Some m \<and> is_evictable m \<and> iter m = g"
    proof (cases "g = f")
      case True
      then show ?thesis using g E n by (simp add: r')
    next
      case False
      then have "g \<in> set (evict_queue r)" using g E sub by (auto simp: r')
      then show ?thesis using wf False by (auto simp: queue_wf_iff r')
    qed
  qed
qed

lemma queue_wf_erase:
  assumes wf: "queue_wf r" and n: "fmlookup (node_store r) f = Some n" "is_evictable n"
  shows "f \<notin> set (set_erase (iter n) (evict_queue r)) \<and>
         distinct (set_erase (iter n) (evict_queue r)) \<and>
         set (set_erase (iter n) (evict_queue r)) \<subseteq> set (evict_queue r)"
proof -
  have d: "distinct (evict_queue r)" using wf by (simp add: queue_wf_iff)
  have "f \<notin> set (remove1 (iter n) (evict_queue r))"
  proof (cases "f \<in> set (evict_queue r)")
    case True
    then have "iter n = f" using wf n by (auto simp: queue_wf_iff)
    then show ?thesis using d by simp
  next
    case False
    then show ?thesis using set_remove1_subset [of "iter n" "evict_queue r"] by auto
  qed
  then show ?thesis using d set_remove1_subset [of "iter n" "evict_queue r"]
    by (simp add: set_erase_def)
qed

lemma queue_wf_untracked:
  assumes wf: "queue_wf r"
    and "fmlookup (node_store r) f = None \<or> (\<exists>n. fmlookup (node_store r) f = Some n \<and> \<not> is_evictable n)"
  shows "f \<notin> set (evict_queue r)"
  using assms by (auto simp: queue_wf_iff)

lemma RecordAccess_wf:
  assumes wf: "queue_wf r"
  shows "queue_wf (snd (RecordAccess f r))"
proof (cases "fmlookup (node_store r) f")
  case None
  have fq: "f \<notin> set (evict_queue r)" using queue_wf_untracked [OF wf] None by simp
  have d: "distinct (evict_queue r)" using wf by (simp add: queue_wf_iff)
  show ?thesis
  proof (cases "fcard (fmdom (node_store r)) < max_size r")
    case False
    then show ?thesis using wf None by (simp add: RecordAccess_def queue_wf_iff)
  next
    case True
    show ?thesis
      by (rule queue_wf_emplace [OF wf subset_refl d fq,
            where n' = "\<lparr>history = [current_timestamp r + 1], fid = f, is_evictable = True, iter = f\<rparr>"])
         (use None True in \<open>simp_all add: RecordAccess_def Let_def\<close>)
  qed
next
  case (Some n)
  show ?thesis
  proof (cases "is_evictable n")
    case False
    have fq: "f \<notin> set (evict_queue r)" using queue_wf_untracked [OF wf] Some False by auto
    have "fid n = f" using wf Some by (simp add: queue_wf_iff)
    then show ?thesis
      using wf Some False fq unfolding queue_wf_iff
      by (auto simp: RecordAccess_def Let_def)
  next
    case True
    note E = queue_wf_erase [OF wf Some True]
    have fd: "fid n = f" using wf Some by (simp add: queue_wf_iff)
    show ?thesis
      by (rule queue_wf_emplace [where r = r and qa = "set_erase (iter n) (evict_queue r)"
              and n' = "n\<lparr>history := push_history (lru_k r) (current_timestamp r + 1) (history n)\<rparr>"])
         (use wf E fd Some True in \<open>simp_all add: RecordAccess_def Let_def\<close>)
  qed
qed

lemma SetEvictable_wf:
  assumes wf: "queue_wf r"
  shows "queue_wf (snd (SetEvictable f b r))"
proof (cases "fmlookup (node_store r) f")
  case None
  then show ?thesis using wf by (simp add: SetEvictable_def)
next
  case (Some n)
  have fd: "fid n = f" using wf Some by (simp add: queue_wf_iff)
  have d: "distinct (evict_queue r)" using wf by (simp add: queue_wf_iff)
  show ?thesis
  proof (cases "is_evictable n = b")
    case True
    then show ?thesis using wf Some by (simp add: SetEvictable_def)
  next
    case False
    show ?thesis
    proof (cases b)
      case True
      then have ne: "\<not> is_evictable n" using False by simp
      have fq: "f \<notin> set (evict_queue r)" using queue_wf_untracked [OF wf] Some ne by auto
      show ?thesis
        by (rule queue_wf_emplace [OF wf subset_refl d fq, where n' = "n\<lparr>is_evictable := True\<rparr>"])
           (use Some True ne fd in \<open>simp_all add: SetEvictable_def Let_def\<close>)
    next
      case b: False
      then have ev: "is_evictable n" using False by simp
      note E = queue_wf_erase [OF wf Some ev]
      have r': "node_store (snd (SetEvictable f b r)) = fmupd f (n\<lparr>is_evictable := False\<rparr>) (node_store r)"
        "evict_queue (snd (SetEvictable f b r)) = set_erase (iter n) (evict_queue r)"
        using Some b ev by (simp_all add: SetEvictable_def Let_def)
      show ?thesis
        unfolding queue_wf_iff r'
        using E wf fd by (auto simp: queue_wf_iff)
    qed
  qed
qed

lemma Remove_node_wf:
  assumes wf: "queue_wf r"
  shows "queue_wf (snd (Remove_node f r))"
proof (cases "fmlookup (node_store r) f")
  case None
  then show ?thesis using wf by (simp add: Remove_node_def)
next
  case (Some n)
  show ?thesis
  proof (cases "is_evictable n")
    case False
    then show ?thesis using wf Some by (simp add: Remove_node_def)
  next
    case True
    note E = queue_wf_erase [OF wf Some True]
    have r': "node_store (snd (Remove_node f r)) = fmdrop f (node_store r)"
        "evict_queue (snd (Remove_node f r)) = set_erase (iter n) (evict_queue r)"
      using Some True by (simp_all add: Remove_node_def)
    show ?thesis
      unfolding queue_wf_iff r'
      using E wf by (auto simp: queue_wf_iff)
  qed
qed

lemmas replacer_eval =
  fcard_fempty fcard_finsert_if eval_nat_numeral RecordAccess_def Let_def queue_less_def
  Comparator_def deref_def push_history_def set_erase_def

lemma accesses_0:
  "accesses [0] (LRUKReplacer_init 1 2) =
    \<lparr>node_store = fmupd 0 \<lparr>history = [1], fid = 0, is_evictable = True, iter = 0\<rparr> fmempty,
      evict_queue = [0], current_timestamp = 1, max_size = 1, evictable_size = 1, lru_k = 2\<rparr>"
  by (simp add: LRUKReplacer_init_def replacer_eval)

lemma accesses_01:
  "accesses [0, 1] (LRUKReplacer_init 2 2) =
    \<lparr>node_store = fmupd 1 \<lparr>history = [2], fid = 1, is_evictable = True, iter = 1\<rparr>
                   (fmupd 0 \<lparr>history = [1], fid = 0, is_evictable = True, iter = 0\<rparr> fmempty),
      evict_queue = [0, 1], current_timestamp = 2, max_size = 2, evictable_size = 2, lru_k = 2\<rparr>"
  by (simp add: LRUKReplacer_init_def replacer_eval)

lemma accesses_010:
  "accesses [0, 1, 0] (LRUKReplacer_init 2 2) =
    \<lparr>node_store = fmupd 0 \<lparr>history = [3, 1], fid = 0, is_evictable = True, iter = 0\<rparr>
                   (fmupd 1 \<lparr>history = [2], fid = 1, is_evictable = True, iter = 1\<rparr> fmempty),
      evict_queue = [1, 0], current_timestamp = 3, max_size = 2, evictable_size = 2, lru_k = 2\<rparr>"
  apply (simp add: LRUKReplacer_init_def replacer_eval)
  apply (rule fmap_ext)
  apply simp
  done

lemma accesses_0101:
  "accesses [0, 1, 0, 1] (LRUKReplacer_init 2 2) =
    \<lparr>node_store = fmupd 1 \<lparr>history = [4, 2], fid = 1, is_evictable = True, iter = 1\<rparr>
                   (fmupd 0 \<lparr>history = [3, 1], fid = 0, is_evictable = True, iter = 0\<rparr> fmempty),
      evict_queue = [0, 1], current_timestamp = 4, max_size = 2, evictable_size = 2, lru_k = 2\<rparr>"
  apply (simp add: LRUKReplacer_init_def replacer_eval)
  apply (rule fmap_ext)
  apply simp
  done

lemma accesses_0_k0:
  "accesses [0] (LRUKReplacer_init 1 0) =
    \<lparr>node_store = fmupd 0 \<lparr>history = [1], fid = 0, is_evictable = True, iter = 0\<rparr> fmempty,
      evict_queue = [0], current_timestamp = 1, max_size = 1, evictable_size = 1, lru_k = 0\<rparr>"
  by (simp add: LRUKReplacer_init_def replacer_eval)

lemma accesses_00_k0:
  "accesses [0, 0] (LRUKReplacer_init 1 0) =
    \<lparr>node_store = fmupd 0 \<lparr>history = [2], fid = 0, is_evictable = True, iter = 0\<rparr> fmempty,
      evict_queue = [0], current_timestamp = 2, max_size = 1, evictable_size = 1, lru_k = 0\<rparr>"
  by (simp add: LRUKReplacer_init_def replacer_eval)

lemma pinned_0:
  "snd (SetEvictable 0 False (accesses [0] (LRUKReplacer_init 1 2))) =
    \<lparr>node_store = fmupd 0 \<lparr>history = [1], fid = 0, is_evictable = False, iter = 0\<rparr> fmempty,
      evict_queue = [], current_timestamp = 1, max_size = 1, evictable_size = 0, lru_k = 2\<rparr>"
  unfolding accesses_0 by (simp add: SetEvictable_def replacer_eval)

lemma RecordAccess_existing:
  assumes "fmlookup (node_store r) f = Some n"
  shows "fst (RecordAccess f r) = Inr ()"
    and "fmdom (node_store (snd (RecordAccess f r))) = fmdom (node_store r)"
    and "evictable_size (snd (RecordAccess f r)) = evictable_size r"
    and "\<exists>n'. fmlookup (node_store (snd (RecordAccess f r))) f = Some n' \<and>
              history n' = push_history (lru_k r) (current_timestamp r + 1) (history n) \<and>
              is_evictable n' = is_evictable n \<and> fid n' = fid n"
    and "\<not> is_evictable n \<Longrightarrow> evict_queue (snd (RecordAccess f r)) = evict_queue r"
  using assms by (auto simp: RecordAccess_def Let_def fmdomI)

lemma RecordAccess_new:
  assumes "fmlookup (node_store r) f = None" and "fcard (fmdom (node_store r)) < max_size r"
  shows "fst (RecordAccess f r) = Inr ()"
    and "fmdom (node_store (snd (RecordAccess f r))) = finsert f (fmdom (node_store r))"
    and "evictable_size (snd (RecordAccess f r)) = evictable_size r + 1"
    and "\<exists>n'. fmlookup (node_store (snd (RecordAccess f r))) f = Some n' \<and>
              history n' = [current_timestamp r + 1] \<and> is_evictable n' \<and> fid n' = f"
  using assms by (auto simp: RecordAccess_def Let_def)

lemma RecordAccess_full:
  assumes "fmlookup (node_store r) f = None" and "\<not> fcard (fmdom (node_store r)) < max_size r"
  shows "RecordAccess f r = (Inl Thrown, r\<lparr>current_timestamp := current_timestamp r + 1\<rparr>)"
  using assms by (simp add: RecordAccess_def Let_def)

lemma RecordAccess_others:
  "g \<noteq> f \<Longrightarrow> fmlookup (node_store (snd (RecordAccess f r))) g = fmlookup (node_store r) g"
  by (auto simp: RecordAccess_def Let_def split: option.splits)

lemma RecordAccess_params:
  "lru_k (snd (RecordAccess f r)) = lru_k r \<and> max_size (snd (RecordAccess f r)) = max_size r"
  by (auto simp: RecordAccess_def Let_def split: option.splits)

lemma RecordAccess_evictable_frames:
  "evictable_frames (snd (RecordAccess f r)) =
     (if fmlookup (node_store r) f = None \<and> fcard (fmdom (node_store r)) < max_size r
      then insert f (evictable_frames r) else evictable_frames r)"
proof -
  let ?r' = "snd (RecordAccess f r)"
  have o: "\<forall>x. x \<noteq> f \<longrightarrow> (x \<in> evictable_frames ?r' \<longleftrightarrow> x \<in> evictable_frames r)"
    by (simp add: evictable_frames_def RecordAccess_others)
  show ?thesis
  proof (cases "fmlookup (node_store r) f")
    case None
    then have nf: "f \<notin> evictable_frames r" by (simp add: evictable_frames_def)
    show ?thesis
    proof (cases "fcard (fmdom (node_store r)) < max_size r")
      case True
      from RecordAccess_new(4) [OF None True]
      have "f \<in> evictable_frames ?r'" by (auto simp: evictable_frames_def)
      then show ?thesis using o nf None True by auto
    next
      case False
      then show ?thesis
        using None by (simp add: RecordAccess_full evictable_frames_def)
    qed
  next
    case (Some n)
    from RecordAccess_existing(4) [OF Some]
    have "f \<in> evictable_frames ?r' \<longleftrightarrow> is_evictable n" by (auto simp: evictable_frames_def)
    moreover have "f \<in> evictable_frames r \<longleftrightarrow> is_evictable n"
      using Some by (simp add: evictable_frames_def)
    ultimately show ?thesis using o Some by auto
  qed
qed

lemma RecordAccess_queue:
  assumes "replacer_inv r" and "current_timestamp r + 1 \<noteq> 0"
  shows "set (evict_queue (snd (RecordAccess f r))) =
           (if fmlookup (node_store r) f = None \<and> fcard (fmdom (node_store r)) < max_size r
            then insert f (set (evict_queue r)) else set (evict_queue r))"
    and "fmlookup (node_store r) f = None \<Longrightarrow> f \<notin> set (evict_queue r)"
proof -
  have "replacer_inv (snd (RecordAccess f r))" using assms by (rule RecordAccess_inv)
  then have "set (evict_queue (snd (RecordAccess f r))) = evictable_frames (snd (RecordAccess f r))"
    by (simp add: replacer_inv_iff)
  moreover have "set (evict_queue r) = evictable_frames r"
    using assms(1) by (simp add: replacer_inv_iff)
  ultimately show "set (evict_queue (snd (RecordAccess f r))) =
           (if fmlookup (node_store r) f = None \<and> fcard (fmdom (node_store r)) < max_size r
            then insert f (set (evict_queue r)) else set (evict_queue r))"
    by (simp add: RecordAccess_evictable_frames)
  show "fmlookup (node_store r) f = None \<Longrightarrow> f \<notin> set (evict_queue r)"
    using inv_not_in_queue [OF assms(1), of f] by simp
qed

lemma push_history_bounded:
  assumes "h \<noteq> []" and "length h \<le> max 1 k"
  shows "push_history k ts h = take (max 1 k) (ts # h)"
proof (cases "length h < k")
  case True
  then show ?thesis by (simp add: push_history_def Let_def)
next
  case False
  then have "max 1 k = length h" using assms by (cases h) auto
  then show ?thesis using False by (simp add: push_history_def Let_def butlast_conv_take)
qed

text \<open>
  C8, as stated, fails for \<open>k = 0\<close>. A replacer constructed with \<open>k = 0\<close> creates the node
  of frame 0 with a one-entry history at the first access, and after the second access the
  history of the node still holds one entry, more than \<open>k\<close>: the code removes at most one
  entry per access and none when it creates the node.
\<close>

theorem RecordAccess_k0_history_exceeds_k:
  "lru_k (LRUKReplacer_init 1 0) = 0 \<and>
   fmlookup (node_store (LRUKReplacer_init 1 0)) 0 = None \<and>
   fst (RecordAccess 0 (LRUKReplacer_init 1 0)) = Inr () \<and>
   map_option history (fmlookup (node_store (snd (RecordAccess 0 (LRUKReplacer_init 1 0)))) 0)
     = Some [1] \<and>
   fst (RecordAccess 0 (accesses [0] (LRUKReplacer_init 1 0))) = Inr () \<and>
   map_option history
     (fmlookup (node_store (snd (RecordAccess 0 (accesses [0] (LRUKReplacer_init 1 0))))) 0)
     = Some [2] \<and>
   lru_k (snd (RecordAccess 0 (accesses [0] (LRUKReplacer_init 1 0)))) = 0 \<and>
   \<not> length (history (deref (node_store (snd (RecordAccess 0 (accesses [0] (LRUKReplacer_init 1 0))))) 0))
       \<le> lru_k (snd (RecordAccess 0 (accesses [0] (LRUKReplacer_init 1 0))))"
proof -
  have i: "lru_k (LRUKReplacer_init 1 0) = 0" "fmlookup (node_store (LRUKReplacer_init 1 0)) 0 = None"
    by (simp_all add: LRUKReplacer_init_def)
  have a: "snd (RecordAccess 0 (LRUKReplacer_init 1 0)) = accesses [0] (LRUKReplacer_init 1 0)"
    and b: "snd (RecordAccess 0 (accesses [0] (LRUKReplacer_init 1 0))) =
              accesses [0, 0] (LRUKReplacer_init 1 0)"
    by simp_all
  have c: "fst (RecordAccess 0 (LRUKReplacer_init 1 0)) = Inr ()"
    by (simp add: LRUKReplacer_init_def replacer_eval)
  have d: "fst (RecordAccess 0 (accesses [0] (LRUKReplacer_init 1 0))) = Inr ()"
    unfolding accesses_0_k0 by (simp add: replacer_eval)
  have e: "map_option history (fmlookup (node_store (accesses [0] (LRUKReplacer_init 1 0))) 0) = Some [1]"
    unfolding accesses_0_k0 by simp
  have f: "map_option history (fmlookup (node_store (accesses [0, 0] (LRUKReplacer_init 1 0))) 0) = Some [2]"
    "lru_k (accesses [0, 0] (LRUKReplacer_init 1 0)) = 0"
    "\<not> length (history (deref (node_store (accesses [0, 0] (LRUKReplacer_init 1 0))) 0))
       \<le> lru_k (accesses [0, 0] (LRUKReplacer_init 1 0))"
    unfolding accesses_00_k0 by (simp_all add: deref_def)
  note g = e [folded a] f [folded b]
  from i c d g show ?thesis by blast
qed

text \<open>
  C8, amended. \<open>RecordAccess\<close> increments the timestamp counter in every case: on 64 bits,
  so the new value is one more as a number unless the counter wraps around to 0. The
  parameters \<open>k\<close> and \<open>max_size\<close> stay as they are.

  If the node exists, the new timestamp is put in front of its history and the oldest entry
  is dropped if the history is then longer than \<open>k\<close>. A history that was not empty and held at
  most \<open>max k 1\<close> entries (as every history of a tracked node does, see \<open>node_ok\<close>) holds the
  newest \<open>max k 1\<close> of the entries afterwards, newest first: at most \<open>k\<close> entries for
  \<open>k \<ge> 1\<close>, one entry for \<open>k = 0\<close>. The evictable flag and the frame id of the node, the set
  of tracked frames and the number of evictable nodes are as before; the queue is as before
  if the node is not evictable, and holds the same frames if it is.

  If the node does not exist and fewer than \<open>max_size\<close> nodes are tracked, the node is created
  with a one-entry history and the evictable flag set, the number of evictable nodes grows
  by one, and the node enters the queue.

  If the node does not exist and \<open>max_size\<close> nodes are tracked, the call throws, and nothing
  but the timestamp counter has changed.

  No other node changes. What is said of the queue holds for a replacer that satisfies its
  invariant and whose counter does not wrap around in this call; then the invariant holds
  afterwards, that is, the queue holds exactly the evictable nodes in the order of the
  comparator, and every evictable node keeps the iterator to its queue element.
\<close>

theorem RecordAccess_contract:
  "current_timestamp (snd (RecordAccess f r)) = current_timestamp r + 1 \<and>
   (current_timestamp r + 1 \<noteq> 0 \<longrightarrow>
      unat (current_timestamp (snd (RecordAccess f r))) = unat (current_timestamp r) + 1) \<and>
   lru_k (snd (RecordAccess f r)) = lru_k r \<and>
   max_size (snd (RecordAccess f r)) = max_size r \<and>
   (\<forall>n. fmlookup (node_store r) f = Some n \<longrightarrow>
        fst (RecordAccess f r) = Inr () \<and>
        fmdom (node_store (snd (RecordAccess f r))) = fmdom (node_store r) \<and>
        evictable_size (snd (RecordAccess f r)) = evictable_size r \<and>
        (\<exists>n'. fmlookup (node_store (snd (RecordAccess f r))) f = Some n' \<and>
              history n' = take (max (lru_k r) (length (history n)))
                             ((current_timestamp r + 1) # history n) \<and>
              (history n \<noteq> [] \<and> length (history n) \<le> max 1 (lru_k r) \<longrightarrow>
                 history n' = take (max 1 (lru_k r)) ((current_timestamp r + 1) # history n) \<and>
                 length (history n') \<le> max 1 (lru_k r)) \<and>
              is_evictable n' = is_evictable n \<and> fid n' = fid n) \<and>
        (\<not> is_evictable n \<longrightarrow> evict_queue (snd (RecordAccess f r)) = evict_queue r) \<and>
        (replacer_inv r \<and> current_timestamp r + 1 \<noteq> 0 \<longrightarrow>
           set (evict_queue (snd (RecordAccess f r))) = set (evict_queue r))) \<and>
   (fmlookup (node_store r) f = None \<and> fcard (fmdom (node_store r)) < max_size r \<longrightarrow>
        fst (RecordAccess f r) = Inr () \<and>
        fmdom (node_store (snd (RecordAccess f r))) = finsert f (fmdom (node_store r)) \<and>
        evictable_size (snd (RecordAccess f r)) = evictable_size r + 1 \<and>
        (\<exists>n'. fmlookup (node_store (snd (RecordAccess f r))) f = Some n' \<and>
              history n' = [current_timestamp r + 1] \<and> is_evictable n' \<and> fid n' = f) \<and>
        (replacer_inv r \<and> current_timestamp r + 1 \<noteq> 0 \<longrightarrow>
           f \<notin> set (evict_queue r) \<and>
           set (evict_queue (snd (RecordAccess f r))) = insert f (set (evict_queue r)))) \<and>
   (fmlookup (node_store r) f = None \<and> \<not> fcard (fmdom (node_store r)) < max_size r \<longrightarrow>
        RecordAccess f r = (Inl Thrown, r\<lparr>current_timestamp := current_timestamp r + 1\<rparr>)) \<and>
   (\<forall>g. g \<noteq> f \<longrightarrow>
        fmlookup (node_store (snd (RecordAccess f r))) g = fmlookup (node_store r) g) \<and>
   (replacer_inv r \<and> current_timestamp r + 1 \<noteq> 0 \<longrightarrow> replacer_inv (snd (RecordAccess f r)))"
proof -
  let ?r' = "snd (RecordAccess f r)" and ?ts = "current_timestamp r + 1"
  have ts: "current_timestamp ?r' = ?ts" by (rule RecordAccess_timestamp)
  have un: "?ts \<noteq> 0 \<longrightarrow> unat (current_timestamp ?r') = unat (current_timestamp r) + 1"
    using timestamp_unat_succ [of "current_timestamp r"] by (simp add: ts)
  have pa: "lru_k ?r' = lru_k r" "max_size ?r' = max_size r"
    using RecordAccess_params [of f r] by simp_all
  have ex: "\<forall>n. fmlookup (node_store r) f = Some n \<longrightarrow>
        fst (RecordAccess f r) = Inr () \<and>
        fmdom (node_store ?r') = fmdom (node_store r) \<and>
        evictable_size ?r' = evictable_size r \<and>
        (\<exists>n'. fmlookup (node_store ?r') f = Some n' \<and>
              history n' = take (max (lru_k r) (length (history n))) (?ts # history n) \<and>
              (history n \<noteq> [] \<and> length (history n) \<le> max 1 (lru_k r) \<longrightarrow>
                 history n' = take (max 1 (lru_k r)) (?ts # history n) \<and>
                 length (history n') \<le> max 1 (lru_k r)) \<and>
              is_evictable n' = is_evictable n \<and> fid n' = fid n) \<and>
        (\<not> is_evictable n \<longrightarrow> evict_queue ?r' = evict_queue r) \<and>
        (replacer_inv r \<and> ?ts \<noteq> 0 \<longrightarrow> set (evict_queue ?r') = set (evict_queue r))"
  proof (intro allI impI)
    fix n assume n: "fmlookup (node_store r) f = Some n"
    note E = RecordAccess_existing [OF n]
    from E(4) obtain n' where n': "fmlookup (node_store ?r') f = Some n'"
      "history n' = push_history (lru_k r) ?ts (history n)"
      "is_evictable n' = is_evictable n" "fid n' = fid n" by blast
    have h1: "history n' = take (max (lru_k r) (length (history n))) (?ts # history n)"
      using n'(2) by (simp add: push_history_max)
    have h2: "history n \<noteq> [] \<and> length (history n) \<le> max 1 (lru_k r) \<longrightarrow>
                 history n' = take (max 1 (lru_k r)) (?ts # history n) \<and>
                 length (history n') \<le> max 1 (lru_k r)"
      using n'(2) push_history_bounded [of "history n" "lru_k r" ?ts] by auto
    have q: "replacer_inv r \<and> ?ts \<noteq> 0 \<longrightarrow> set (evict_queue ?r') = set (evict_queue r)"
      using RecordAccess_queue(1) [of r f] n by simp
    show "fst (RecordAccess f r) = Inr () \<and>
        fmdom (node_store ?r') = fmdom (node_store r) \<and>
        evictable_size ?r' = evictable_size r \<and>
        (\<exists>n'. fmlookup (node_store ?r') f = Some n' \<and>
              history n' = take (max (lru_k r) (length (history n))) (?ts # history n) \<and>
              (history n \<noteq> [] \<and> length (history n) \<le> max 1 (lru_k r) \<longrightarrow>
                 history n' = take (max 1 (lru_k r)) (?ts # history n) \<and>
                 length (history n') \<le> max 1 (lru_k r)) \<and>
              is_evictable n' = is_evictable n \<and> fid n' = fid n) \<and>
        (\<not> is_evictable n \<longrightarrow> evict_queue ?r' = evict_queue r) \<and>
        (replacer_inv r \<and> ?ts \<noteq> 0 \<longrightarrow> set (evict_queue ?r') = set (evict_queue r))"
      using E(1,2,3,5) n' h1 h2 q by blast
  qed
  have nw: "fmlookup (node_store r) f = None \<and> fcard (fmdom (node_store r)) < max_size r \<longrightarrow>
        fst (RecordAccess f r) = Inr () \<and>
        fmdom (node_store ?r') = finsert f (fmdom (node_store r)) \<and>
        evictable_size ?r' = evictable_size r + 1 \<and>
        (\<exists>n'. fmlookup (node_store ?r') f = Some n' \<and>
              history n' = [?ts] \<and> is_evictable n' \<and> fid n' = f) \<and>
        (replacer_inv r \<and> ?ts \<noteq> 0 \<longrightarrow>
           f \<notin> set (evict_queue r) \<and>
           set (evict_queue ?r') = insert f (set (evict_queue r)))"
  proof (intro impI)
    assume a: "fmlookup (node_store r) f = None \<and> fcard (fmdom (node_store r)) < max_size r"
    note N = RecordAccess_new [OF conjunct1 [OF a] conjunct2 [OF a]]
    have q: "replacer_inv r \<and> ?ts \<noteq> 0 \<longrightarrow>
           f \<notin> set (evict_queue r) \<and> set (evict_queue ?r') = insert f (set (evict_queue r))"
      using RecordAccess_queue [of r f] a by simp
    show "fst (RecordAccess f r) = Inr () \<and>
        fmdom (node_store ?r') = finsert f (fmdom (node_store r)) \<and>
        evictable_size ?r' = evictable_size r + 1 \<and>
        (\<exists>n'. fmlookup (node_store ?r') f = Some n' \<and>
              history n' = [?ts] \<and> is_evictable n' \<and> fid n' = f) \<and>
        (replacer_inv r \<and> ?ts \<noteq> 0 \<longrightarrow>
           f \<notin> set (evict_queue r) \<and>
           set (evict_queue ?r') = insert f (set (evict_queue r)))"
      using N q by blast
  qed
  have fu: "fmlookup (node_store r) f = None \<and> \<not> fcard (fmdom (node_store r)) < max_size r \<longrightarrow>
        RecordAccess f r = (Inl Thrown, r\<lparr>current_timestamp := ?ts\<rparr>)"
    using RecordAccess_full [of r f] by blast
  have ot: "\<forall>g. g \<noteq> f \<longrightarrow> fmlookup (node_store ?r') g = fmlookup (node_store r) g"
    by (simp add: RecordAccess_others)
  have iv: "replacer_inv r \<and> ?ts \<noteq> 0 \<longrightarrow> replacer_inv ?r'"
    using RecordAccess_inv [of r f] by blast
  show ?thesis
    using ts un pa ex nw fu ot iv by (intro conjI)
qed

theorem RecordAccess_contract_witness:
  "fmlookup (node_store (LRUKReplacer_init 1 2)) 0 = None \<and>
   fcard (fmdom (node_store (LRUKReplacer_init 1 2))) < max_size (LRUKReplacer_init 1 2) \<and>
   replacer_inv (LRUKReplacer_init 1 2) \<and>
   current_timestamp (LRUKReplacer_init 1 2) + 1 \<noteq> 0 \<and>
   fst (RecordAccess 0 (LRUKReplacer_init 1 2)) = Inr () \<and>
   current_timestamp (snd (RecordAccess 0 (LRUKReplacer_init 1 2))) = 1 \<and>
   unat (current_timestamp (snd (RecordAccess 0 (LRUKReplacer_init 1 2)))) = 1 \<and>
   (\<exists>n'. fmlookup (node_store (snd (RecordAccess 0 (LRUKReplacer_init 1 2)))) 0 = Some n' \<and>
         history n' = [1] \<and> is_evictable n' \<and> fid n' = 0) \<and>
   evictable_size (snd (RecordAccess 0 (LRUKReplacer_init 1 2))) = 1 \<and>
   set (evict_queue (snd (RecordAccess 0 (LRUKReplacer_init 1 2)))) = {0} \<and>
   replacer_inv (snd (RecordAccess 0 (LRUKReplacer_init 1 2))) \<and>
   (\<exists>n. fmlookup (node_store (accesses [0] (LRUKReplacer_init 1 2))) 0 = Some n \<and>
        history n \<noteq> [] \<and>
        length (history n) \<le> max 1 (lru_k (accesses [0] (LRUKReplacer_init 1 2)))) \<and>
   (\<exists>n'. fmlookup (node_store (snd (RecordAccess 0 (accesses [0] (LRUKReplacer_init 1 2))))) 0 = Some n' \<and>
         history n' = [2, 1] \<and> is_evictable n') \<and>
   evictable_size (snd (RecordAccess 0 (accesses [0] (LRUKReplacer_init 1 2)))) = 1 \<and>
   set (evict_queue (snd (RecordAccess 0 (accesses [0] (LRUKReplacer_init 1 2))))) = {0} \<and>
   fmlookup (node_store (accesses [0] (LRUKReplacer_init 1 2))) 7 = None \<and>
   \<not> fcard (fmdom (node_store (accesses [0] (LRUKReplacer_init 1 2)))) <
       max_size (accesses [0] (LRUKReplacer_init 1 2)) \<and>
   (0::int) \<noteq> 7 \<and>
   fmlookup (node_store (snd (RecordAccess 7 (accesses [0] (LRUKReplacer_init 1 2))))) 0 =
     fmlookup (node_store (accesses [0] (LRUKReplacer_init 1 2))) 0 \<and>
   fst (RecordAccess 7 (accesses [0] (LRUKReplacer_init 1 2))) = Inl Thrown \<and>
   node_store (snd (RecordAccess 7 (accesses [0] (LRUKReplacer_init 1 2)))) =
     node_store (accesses [0] (LRUKReplacer_init 1 2)) \<and>
   evict_queue (snd (RecordAccess 7 (accesses [0] (LRUKReplacer_init 1 2)))) =
     evict_queue (accesses [0] (LRUKReplacer_init 1 2)) \<and>
   current_timestamp (snd (RecordAccess 7 (accesses [0] (LRUKReplacer_init 1 2)))) = 2 \<and>
   (\<exists>n. fmlookup (node_store (snd (SetEvictable 0 False (accesses [0] (LRUKReplacer_init 1 2))))) 0
          = Some n \<and> \<not> is_evictable n) \<and>
   evict_queue (snd (RecordAccess 0 (snd (SetEvictable 0 False (accesses [0] (LRUKReplacer_init 1 2))))))
     = evict_queue (snd (SetEvictable 0 False (accesses [0] (LRUKReplacer_init 1 2)))) \<and>
   (\<exists>n'. fmlookup (node_store (snd (RecordAccess 0 (accesses [0, 1, 0] (LRUKReplacer_init 2 2))))) 0
           = Some n' \<and> history n' = [4, 3] \<and>
         length (history n') \<le> lru_k (accesses [0, 1, 0] (LRUKReplacer_init 2 2))) \<and>
   (\<exists>n'. fmlookup (node_store (snd (RecordAccess 0 (accesses [0] (LRUKReplacer_init 1 0))))) 0
           = Some n' \<and> history n' = [2] \<and>
         length (history n') \<le> max 1 (lru_k (accesses [0] (LRUKReplacer_init 1 0)))) \<and>
   replacer_inv (LRUKReplacer_init 1 0) \<and>
   set (evict_queue (snd (RecordAccess 0 (LRUKReplacer_init 1 0)))) = {0} \<and>
   replacer_inv (snd (RecordAccess 0 (LRUKReplacer_init 1 0)))"
proof -
  let ?r0 = "LRUKReplacer_init 1 2"
  have i0: "replacer_inv ?r0" by (rule replacer_inv_init)
  have h0: "fmlookup (node_store ?r0) 0 = None" "fcard (fmdom (node_store ?r0)) < max_size ?r0"
    "current_timestamp ?r0 + 1 \<noteq> 0" "current_timestamp ?r0 = 0" "evictable_size ?r0 = 0"
    "evict_queue ?r0 = []"
    by (simp_all add: LRUKReplacer_init_def fcard_fempty)
  have c0: "fst (RecordAccess 0 ?r0) = Inr () \<and>
            current_timestamp (snd (RecordAccess 0 ?r0)) = 1 \<and>
            unat (current_timestamp (snd (RecordAccess 0 ?r0))) = 1 \<and>
            (\<exists>n'. fmlookup (node_store (snd (RecordAccess 0 ?r0))) 0 = Some n' \<and>
                  history n' = [1] \<and> is_evictable n' \<and> fid n' = 0) \<and>
            evictable_size (snd (RecordAccess 0 ?r0)) = 1 \<and>
            set (evict_queue (snd (RecordAccess 0 ?r0))) = {0} \<and>
            replacer_inv (snd (RecordAccess 0 ?r0))"
    using RecordAccess_contract [of 0 ?r0] i0 h0 by simp
  let ?r1 = "accesses [0] (LRUKReplacer_init 1 2)"
  have i1: "replacer_inv ?r1" by (rule accesses_inv [OF i0]) (simp add: LRUKReplacer_init_def)
  have h1: "fmlookup (node_store ?r1) 0 =
              Some \<lparr>history = [1], fid = 0, is_evictable = True, iter = 0\<rparr>"
    "current_timestamp ?r1 = 1" "lru_k ?r1 = 2" "evictable_size ?r1 = 1" "evict_queue ?r1 = [0]"
    "fmlookup (node_store ?r1) 7 = None" "\<not> fcard (fmdom (node_store ?r1)) < max_size ?r1"
    unfolding accesses_0 by (simp_all add: fcard_fempty fcard_finsert_if)
  have c1: "(\<exists>n'. fmlookup (node_store (snd (RecordAccess 0 ?r1))) 0 = Some n' \<and>
                  history n' = [2, 1] \<and> is_evictable n') \<and>
            evictable_size (snd (RecordAccess 0 ?r1)) = 1 \<and>
            set (evict_queue (snd (RecordAccess 0 ?r1))) = {0}"
    using RecordAccess_contract [of 0 ?r1] i1 h1 by (auto simp: numeral_2_eq_2)
  have c7: "fmlookup (node_store (snd (RecordAccess 7 ?r1))) 0 = fmlookup (node_store ?r1) 0 \<and>
            fst (RecordAccess 7 ?r1) = Inl Thrown \<and>
            node_store (snd (RecordAccess 7 ?r1)) = node_store ?r1 \<and>
            evict_queue (snd (RecordAccess 7 ?r1)) = evict_queue ?r1 \<and>
            current_timestamp (snd (RecordAccess 7 ?r1)) = 2"
    using RecordAccess_contract [of 7 ?r1] h1 by simp
  let ?r2 = "snd (SetEvictable 0 False (accesses [0] (LRUKReplacer_init 1 2)))"
  have h2: "fmlookup (node_store ?r2) 0 =
              Some \<lparr>history = [1], fid = 0, is_evictable = False, iter = 0\<rparr>"
    unfolding pinned_0 by simp
  have c2: "evict_queue (snd (RecordAccess 0 ?r2)) = evict_queue ?r2"
    using RecordAccess_contract [of 0 ?r2] h2 by simp
  let ?r3 = "accesses [0, 1, 0] (LRUKReplacer_init 2 2)"
  have h3: "fmlookup (node_store ?r3) 0 =
              Some \<lparr>history = [3, 1], fid = 0, is_evictable = True, iter = 0\<rparr>"
    "current_timestamp ?r3 = 3" "lru_k ?r3 = 2"
    unfolding accesses_010 by simp_all
  have c3: "\<exists>n'. fmlookup (node_store (snd (RecordAccess 0 ?r3))) 0 = Some n' \<and>
                 history n' = [4, 3] \<and> length (history n') \<le> lru_k ?r3"
    using RecordAccess_contract [of 0 ?r3] h3 by (auto simp: numeral_2_eq_2)
  let ?r4 = "accesses [0] (LRUKReplacer_init 1 0)"
  have h4: "fmlookup (node_store ?r4) 0 =
              Some \<lparr>history = [1], fid = 0, is_evictable = True, iter = 0\<rparr>"
    "current_timestamp ?r4 = 1" "lru_k ?r4 = 0"
    unfolding accesses_0_k0 by simp_all
  have c4: "\<exists>n'. fmlookup (node_store (snd (RecordAccess 0 ?r4))) 0 = Some n' \<and>
                 history n' = [2] \<and> length (history n') \<le> max 1 (lru_k ?r4)"
    using RecordAccess_contract [of 0 ?r4] h4 by auto
  let ?r5 = "LRUKReplacer_init 1 0"
  have i5: "replacer_inv ?r5" by (rule replacer_inv_init)
  have h5: "fmlookup (node_store ?r5) 0 = None" "fcard (fmdom (node_store ?r5)) < max_size ?r5"
    "current_timestamp ?r5 + 1 \<noteq> 0" "evict_queue ?r5 = []"
    by (simp_all add: LRUKReplacer_init_def fcard_fempty)
  have c5: "set (evict_queue (snd (RecordAccess 0 ?r5))) = {0} \<and>
            replacer_inv (snd (RecordAccess 0 ?r5))"
    using RecordAccess_contract [of 0 ?r5] i5 h5 by simp
  show ?thesis
    using i0 h0(1,2,3) c0 h1(1,6,7) c1 c7 h2 c2 c3 c4 i5 c5 by simp
qed

text \<open>
  C4. On a replacer that satisfies its invariant, \<open>Evict\<close> returns false exactly when no
  node is evictable. Otherwise it returns an evictable node \<open>v\<close> of greatest backward
  k-distance: if any evictable node has fewer than k recorded accesses then so has \<open>v\<close>;
  among nodes with exactly k accesses, and among nodes with fewer than k, \<open>v\<close> is the one
  whose oldest retained timestamp is smallest. The node leaves the node table and the queue.
\<close>

theorem Evict_greatest_backward_k_distance:
  assumes inv: "replacer_inv r"
  shows "(fst (Evict r) = None \<longleftrightarrow> evictable_frames r = {}) \<and>
         (evictable_frames r \<noteq> {} \<longrightarrow> (\<exists>v. fst (Evict r) = Some v)) \<and>
         (\<forall>v. fst (Evict r) = Some v \<longrightarrow>
            v \<in> evictable_frames r \<and>
            (\<forall>u\<in>evictable_frames r. u \<noteq> v \<longrightarrow>
               backward_k_distance (lru_k r) (current_timestamp r) (deref (node_store r) u)
                 \<le> backward_k_distance (lru_k r) (current_timestamp r) (deref (node_store r) v) \<and>
               (length (history (deref (node_store r) u)) < lru_k r \<longrightarrow>
                  length (history (deref (node_store r) v)) < lru_k r) \<and>
               (length (history (deref (node_store r) v)) = lru_k r \<and>
                length (history (deref (node_store r) u)) = lru_k r \<longrightarrow>
                  last (history (deref (node_store r) v)) < last (history (deref (node_store r) u))) \<and>
               (length (history (deref (node_store r) v)) < lru_k r \<and>
                length (history (deref (node_store r) u)) < lru_k r \<longrightarrow>
                  last (history (deref (node_store r) v)) < last (history (deref (node_store r) u)))) \<and>
            node_store (snd (Evict r)) = fmdrop v (node_store r) \<and>
            fmlookup (node_store (snd (Evict r))) v = None \<and>
            evict_queue (snd (Evict r)) = remove1 v (evict_queue r) \<and>
            v \<notin> set (evict_queue (snd (Evict r))))"
proof (cases "evict_queue r")
  case Nil
  then have "evictable_frames r = {}" using inv by (simp add: replacer_inv_iff)
  then show ?thesis using Nil by (simp add: Evict_empty)
next
  case (Cons w q)
  have st: "set (w # q) = evictable_frames r" using inv Cons by (simp add: replacer_inv_iff)
  have d: "distinct (w # q)" using replacer_inv_distinct [OF inv] Cons by simp
  have so: "\<forall>u\<in>set q. queue_less (lru_k r) (node_store r) w u"
    using inv Cons by (simp add: replacer_inv_iff)
  have len: "\<And>a. a \<in> evictable_frames r \<Longrightarrow>
               length (history (deref (node_store r) a)) \<le> max 1 (lru_k r)"
    using inv by (auto simp: replacer_inv_iff evictable_frames_def node_ok_def deref_def)
  have win: "w \<in> evictable_frames r" using st by auto
  have cmp: "\<forall>u\<in>evictable_frames r. u \<noteq> w \<longrightarrow>
               backward_k_distance (lru_k r) (current_timestamp r) (deref (node_store r) u)
                 \<le> backward_k_distance (lru_k r) (current_timestamp r) (deref (node_store r) w) \<and>
               (length (history (deref (node_store r) u)) < lru_k r \<longrightarrow>
                  length (history (deref (node_store r) w)) < lru_k r) \<and>
               (length (history (deref (node_store r) w)) = lru_k r \<and>
                length (history (deref (node_store r) u)) = lru_k r \<longrightarrow>
                  last (history (deref (node_store r) w)) < last (history (deref (node_store r) u))) \<and>
               (length (history (deref (node_store r) w)) < lru_k r \<and>
                length (history (deref (node_store r) u)) < lru_k r \<longrightarrow>
                  last (history (deref (node_store r) w)) < last (history (deref (node_store r) u)))"
  proof (intro ballI impI)
    fix u assume u: "u \<in> evictable_frames r" and uw: "u \<noteq> w"
    then have "u \<in> set q" using st by auto
    then have c: "Comparator (lru_k r) (deref (node_store r) w) (deref (node_store r) u)"
      using so by (simp add: queue_less_def)
    from c len [OF u] len [OF win]
    show "backward_k_distance (lru_k r) (current_timestamp r) (deref (node_store r) u)
                 \<le> backward_k_distance (lru_k r) (current_timestamp r) (deref (node_store r) w) \<and>
               (length (history (deref (node_store r) u)) < lru_k r \<longrightarrow>
                  length (history (deref (node_store r) w)) < lru_k r) \<and>
               (length (history (deref (node_store r) w)) = lru_k r \<and>
                length (history (deref (node_store r) u)) = lru_k r \<longrightarrow>
                  last (history (deref (node_store r) w)) < last (history (deref (node_store r) u))) \<and>
               (length (history (deref (node_store r) w)) < lru_k r \<and>
                length (history (deref (node_store r) u)) < lru_k r \<longrightarrow>
                  last (history (deref (node_store r) w)) < last (history (deref (node_store r) u)))"
      by (auto simp: Comparator_def backward_k_distance_def word_less_nat_alt split: if_splits)
  qed
  have "evictable_frames r \<noteq> {}" using win by auto
  then show ?thesis
    using cmp win d Cons by (simp add: Evict_Cons [OF inv Cons])
qed

theorem Evict_greatest_backward_k_distance_witness:
  "replacer_inv (accesses [0, 1, 0] (LRUKReplacer_init 2 2)) \<and>
   evictable_frames (accesses [0, 1, 0] (LRUKReplacer_init 2 2)) \<noteq> {} \<and>
   fst (Evict (accesses [0, 1, 0] (LRUKReplacer_init 2 2))) = Some 1 \<and>
   0 \<in> evictable_frames (accesses [0, 1, 0] (LRUKReplacer_init 2 2)) \<and> (0::int) \<noteq> 1 \<and>
   length (history (deref (node_store (accesses [0, 1, 0] (LRUKReplacer_init 2 2))) 0)) = 2 \<and>
   length (history (deref (node_store (accesses [0, 1, 0] (LRUKReplacer_init 2 2))) 1)) < 2 \<and>
   backward_k_distance 2 3 (deref (node_store (accesses [0, 1, 0] (LRUKReplacer_init 2 2))) 0)
     \<le> backward_k_distance 2 3 (deref (node_store (accesses [0, 1, 0] (LRUKReplacer_init 2 2))) 1) \<and>
   fmlookup (node_store (snd (Evict (accesses [0, 1, 0] (LRUKReplacer_init 2 2))))) 1 = None \<and>
   1 \<notin> set (evict_queue (snd (Evict (accesses [0, 1, 0] (LRUKReplacer_init 2 2))))) \<and>
   replacer_inv (accesses [0, 1] (LRUKReplacer_init 2 2)) \<and>
   fst (Evict (accesses [0, 1] (LRUKReplacer_init 2 2))) = Some 0 \<and>
   1 \<in> evictable_frames (accesses [0, 1] (LRUKReplacer_init 2 2)) \<and> (1::int) \<noteq> 0 \<and>
   length (history (deref (node_store (accesses [0, 1] (LRUKReplacer_init 2 2))) 0)) < 2 \<and>
   length (history (deref (node_store (accesses [0, 1] (LRUKReplacer_init 2 2))) 1)) < 2 \<and>
   last (history (deref (node_store (accesses [0, 1] (LRUKReplacer_init 2 2))) 0))
     < last (history (deref (node_store (accesses [0, 1] (LRUKReplacer_init 2 2))) 1)) \<and>
   replacer_inv (accesses [0, 1, 0, 1] (LRUKReplacer_init 2 2)) \<and>
   fst (Evict (accesses [0, 1, 0, 1] (LRUKReplacer_init 2 2))) = Some 0 \<and>
   1 \<in> evictable_frames (accesses [0, 1, 0, 1] (LRUKReplacer_init 2 2)) \<and>
   length (history (deref (node_store (accesses [0, 1, 0, 1] (LRUKReplacer_init 2 2))) 0)) = 2 \<and>
   length (history (deref (node_store (accesses [0, 1, 0, 1] (LRUKReplacer_init 2 2))) 1)) = 2 \<and>
   last (history (deref (node_store (accesses [0, 1, 0, 1] (LRUKReplacer_init 2 2))) 0))
     < last (history (deref (node_store (accesses [0, 1, 0, 1] (LRUKReplacer_init 2 2))) 1)) \<and>
   replacer_inv (LRUKReplacer_init 2 2) \<and>
   evictable_frames (LRUKReplacer_init 2 2) = {} \<and>
   fst (Evict (LRUKReplacer_init 2 2)) = None"
proof -
  note i0 = replacer_inv_init [of 2 2]
  have i1: "replacer_inv (accesses [0, 1, 0] (LRUKReplacer_init 2 2))"
    and i2: "replacer_inv (accesses [0, 1] (LRUKReplacer_init 2 2))"
    and i3: "replacer_inv (accesses [0, 1, 0, 1] (LRUKReplacer_init 2 2))"
    by (rule accesses_inv [OF i0], simp add: LRUKReplacer_init_def)+
  show ?thesis
    using i0 i1 i2 i3
      Evict_greatest_backward_k_distance [OF i1]
      Evict_greatest_backward_k_distance [OF i2]
      Evict_greatest_backward_k_distance [OF i3]
      Evict_greatest_backward_k_distance [OF i0]
    unfolding accesses_010 accesses_01 accesses_0101
    by (simp add: evictable_frames_def deref_def LRUKReplacer_init_def Evict_def
        backward_k_distance_def)
qed

section \<open>Properties of the buffer pool manager\<close>

lemmas bpm_eval =
  BufferPoolManager_init_def LRUKReplacer_init_def cfg0_def disk0_def Page_init_def
  ResetMemory_def emplace_def Evict_def SetEvictable_def Remove_node_def FlushFrame_def
  Schedule_def DeallocatePage_def replacer_eval

lemma pool1_new_eval:
  "pool1_new =
     \<lparr>pool_size = 1,
      pages = (\<lambda>_. Page_init cfg0)(0 := \<lparr>data = [0, 0, 0, 0], page_id = 0, pin_count = 1, is_dirty = False\<rparr>),
      replacer = \<lparr>node_store = fmupd 0 \<lparr>history = [1], fid = 0, is_evictable = False, iter = 0\<rparr> fmempty,
                   evict_queue = [], current_timestamp = 1, max_size = 1, evictable_size = 0,
                   lru_k = 2\<rparr>,
      free_list = [], page_table = fmupd 0 0 fmempty, next_page_id = 1, disk_scheduler = disk0\<rparr>"
  by (simp add: pool1_new_def pool1_def NewPage_def bpm_eval)

lemma pool1_fetch_eval:
  "FetchPage cfg0 0 pool1 =
     (Inr (Some 0),
      \<lparr>pool_size = 1,
      pages = (\<lambda>_. Page_init cfg0)(0 := \<lparr>data = [0, 0, 0, 0], page_id = 0, pin_count = 0, is_dirty = False\<rparr>),
      replacer = \<lparr>node_store = fmupd 0 \<lparr>history = [1], fid = 0, is_evictable = False, iter = 0\<rparr> fmempty,
                   evict_queue = [], current_timestamp = 1, max_size = 1, evictable_size = 0,
                   lru_k = 2\<rparr>,
      free_list = [], page_table = fmupd 0 0 fmempty, next_page_id = 0,
      disk_scheduler = \<lparr>disk_pages = (\<lambda>_. replicate 4 0), requests = [(False, 0)]\<rparr>\<rparr>)"
  by (simp add: pool1_def FetchPage_def bpm_eval)

lemma DeletePage_pinned:
  "fmlookup (page_table s) pid = Some f \<Longrightarrow> 0 <s pin_count (pages s f) \<Longrightarrow>
   DeletePage cfg pid s = (Inr False, s\<lparr>page_table := fmdrop pid (page_table s)\<rparr>)"
  by (simp add: DeletePage_def Let_def)

lemma RecordAccess_tracked:
  "fmlookup (node_store r) f = Some n \<Longrightarrow>
   fst (RecordAccess f r) = Inr () \<and> f |\<in>| fmdom (node_store (snd (RecordAccess f r)))"
  by (simp add: RecordAccess_def Let_def)

lemma SetEvictable_tracked:
  "f |\<in>| fmdom (node_store r) \<Longrightarrow> fst (SetEvictable f b r) = Inr ()"
  by (auto simp: SetEvictable_def Let_def fmlookup_dom_iff)

lemma SetEvictable_False_result:
  "SetEvictable f False r = (Inr (), r') \<Longrightarrow>
   \<exists>n. fmlookup (node_store r') f = Some n \<and> \<not> is_evictable n"
  by (auto simp: SetEvictable_def Let_def split: option.splits if_splits)

lemma FetchPage_miss_result:
  assumes "fmlookup (page_table s) pid = None"
    and "FetchPage cfg pid s = (Inr (Some f), s')"
  shows "pin_count (pages s' f) = 0 \<and>
         (\<exists>n. fmlookup (node_store (replacer s')) f = Some n \<and> \<not> is_evictable n)"
  using assms
  by (auto simp: FetchPage_def Let_def ResetMemory_def
      split: if_splits prod.splits option.splits sum.splits
      dest: SetEvictable_False_result)

lemma pool1_dirty_eval:
  "pool1_dirty =
     \<lparr>pool_size = 1,
      pages = (\<lambda>_. Page_init cfg0)(0 := \<lparr>data = [0, 0, 0, 0], page_id = 0, pin_count = 0, is_dirty = True\<rparr>),
      replacer = \<lparr>node_store = fmupd 0 \<lparr>history = [1], fid = 0, is_evictable = True, iter = 0\<rparr> fmempty,
                   evict_queue = [0], current_timestamp = 1, max_size = 1, evictable_size = 1,
                   lru_k = 2\<rparr>,
      free_list = [], page_table = fmupd 0 0 fmempty, next_page_id = 1, disk_scheduler = disk0\<rparr>"
  using pool1_new_eval
  by (simp add: pool1_dirty_def pool1_new_def UnpinPage_def bpm_eval)

lemma pool1_unpinned_eval:
  "calls cfg0 [Call_NewPage, Call_UnpinPage 0 False] pool1 =
     \<lparr>pool_size = 1,
      pages = (\<lambda>_. Page_init cfg0)(0 := \<lparr>data = [0, 0, 0, 0], page_id = 0, pin_count = 0, is_dirty = False\<rparr>),
      replacer = \<lparr>node_store = fmupd 0 \<lparr>history = [1], fid = 0, is_evictable = True, iter = 0\<rparr> fmempty,
                   evict_queue = [0], current_timestamp = 1, max_size = 1, evictable_size = 1,
                   lru_k = 2\<rparr>,
      free_list = [], page_table = fmupd 0 0 fmempty, next_page_id = 1, disk_scheduler = disk0\<rparr>"
  using pool1_new_eval
  by (simp add: pool1_new_def UnpinPage_def bpm_eval)

lemma pool1_second_eval:
  "calls cfg0 [Call_NewPage, Call_UnpinPage 0 False, Call_NewPage] pool1 =
     \<lparr>pool_size = 1,
      pages = (\<lambda>_. Page_init cfg0)(0 := \<lparr>data = [0, 0, 0, 0], page_id = 1, pin_count = 1, is_dirty = False\<rparr>),
      replacer = \<lparr>node_store = fmupd 0 \<lparr>history = [2], fid = 0, is_evictable = False, iter = 0\<rparr> fmempty,
                   evict_queue = [], current_timestamp = 2, max_size = 1, evictable_size = 0,
                   lru_k = 2\<rparr>,
      free_list = [], page_table = fmupd 1 0 fmempty, next_page_id = 2, disk_scheduler = disk0\<rparr>"
proof -
  have "calls cfg0 [Call_NewPage, Call_UnpinPage 0 False, Call_NewPage] pool1 =
          snd (NewPage cfg0 (calls cfg0 [Call_NewPage, Call_UnpinPage 0 False] pool1))"
    by simp
  also have "\<dots> = \<lparr>pool_size = 1,
      pages = (\<lambda>_. Page_init cfg0)(0 := \<lparr>data = [0, 0, 0, 0], page_id = 1, pin_count = 1, is_dirty = False\<rparr>),
      replacer = \<lparr>node_store = fmupd 0 \<lparr>history = [2], fid = 0, is_evictable = False, iter = 0\<rparr> fmempty,
                   evict_queue = [], current_timestamp = 2, max_size = 1, evictable_size = 0,
                   lru_k = 2\<rparr>,
      free_list = [], page_table = fmupd 1 0 fmempty, next_page_id = 2, disk_scheduler = disk0\<rparr>"
    unfolding pool1_unpinned_eval
    by (simp add: NewPage_def bpm_eval fmdrop_fmupd_same)
  finally show ?thesis .
qed

lemma pool1_evicted_eval:
  "pool1_evicted =
     \<lparr>pool_size = 1,
      pages = (\<lambda>_. Page_init cfg0)(0 := \<lparr>data = [0, 0, 0, 0], page_id = 1, pin_count = 0, is_dirty = False\<rparr>),
      replacer = \<lparr>node_store = fmupd 0 \<lparr>history = [2], fid = 0, is_evictable = True, iter = 0\<rparr> fmempty,
                   evict_queue = [0], current_timestamp = 2, max_size = 1, evictable_size = 1,
                   lru_k = 2\<rparr>,
      free_list = [], page_table = fmupd 1 0 fmempty, next_page_id = 2, disk_scheduler = disk0\<rparr>"
proof -
  have "pool1_evicted =
          snd (UnpinPage 1 False (calls cfg0 [Call_NewPage, Call_UnpinPage 0 False, Call_NewPage] pool1))"
    by (simp add: pool1_evicted_def)
  also have "\<dots> = \<lparr>pool_size = 1,
      pages = (\<lambda>_. Page_init cfg0)(0 := \<lparr>data = [0, 0, 0, 0], page_id = 1, pin_count = 0, is_dirty = False\<rparr>),
      replacer = \<lparr>node_store = fmupd 0 \<lparr>history = [2], fid = 0, is_evictable = True, iter = 0\<rparr> fmempty,
                   evict_queue = [0], current_timestamp = 2, max_size = 1, evictable_size = 1,
                   lru_k = 2\<rparr>,
      free_list = [], page_table = fmupd 1 0 fmempty, next_page_id = 2, disk_scheduler = disk0\<rparr>"
    unfolding pool1_second_eval
    by (simp add: UnpinPage_def bpm_eval)
  finally show ?thesis .
qed

lemma pool1_evicted_fetch_eval:
  "FetchPage cfg0 0 pool1_evicted =
     (Inr (Some 0),
      \<lparr>pool_size = 1,
      pages = (\<lambda>_. Page_init cfg0)(0 := \<lparr>data = [0, 0, 0, 0], page_id = 0, pin_count = 0, is_dirty = False\<rparr>),
      replacer = \<lparr>node_store = fmupd 0 \<lparr>history = [3], fid = 0, is_evictable = False, iter = 0\<rparr> fmempty,
                   evict_queue = [], current_timestamp = 3, max_size = 1, evictable_size = 0,
                   lru_k = 2\<rparr>,
      free_list = [], page_table = fmupd 0 0 fmempty, next_page_id = 2,
      disk_scheduler = \<lparr>disk_pages = (\<lambda>_. replicate 4 0), requests = [(False, 0)]\<rparr>\<rparr>)"
  unfolding pool1_evicted_eval
  by (simp add: FetchPage_def bpm_eval fmdrop_fmupd_same)

text \<open>
  C1 (the code departs from the claim). In a pool of one frame, page 0 has been created,
  unpinned and evicted for page 1, which has been unpinned too. \<open>FetchPage\<close> of page 0
  takes the miss path, obtains frame 0 by eviction and returns it. The frame is marked
  non-evictable in the replacer, but its pin count is 0, not at least 1. The same happens
  when the frame comes from the free list, as in the freshly constructed pool.
\<close>

theorem FetchPage_miss_pin_count_zero:
  "fmlookup (page_table pool1_evicted) 0 = None \<and>
   free_list pool1_evicted = [] \<and>
   fst (FetchPage cfg0 0 pool1_evicted) = Inr (Some 0) \<and>
   pin_count (pages (snd (FetchPage cfg0 0 pool1_evicted)) 0) = 0 \<and>
   \<not> 1 \<le> sint (pin_count (pages (snd (FetchPage cfg0 0 pool1_evicted)) 0)) \<and>
   map_option is_evictable
     (fmlookup (node_store (replacer (snd (FetchPage cfg0 0 pool1_evicted)))) 0) = Some False \<and>
   fmlookup (page_table pool1) 0 = None \<and>
   free_list pool1 = [0] \<and>
   fst (FetchPage cfg0 0 pool1) = Inr (Some 0) \<and>
   pin_count (pages (snd (FetchPage cfg0 0 pool1)) 0) = 0 \<and>
   map_option is_evictable (fmlookup (node_store (replacer (snd (FetchPage cfg0 0 pool1)))) 0)
     = Some False"
proof -
  have "fmlookup (page_table pool1_evicted) 0 = None" "free_list pool1_evicted = []"
    by (simp_all add: pool1_evicted_eval)
  moreover have "fmlookup (page_table pool1) 0 = None" "free_list pool1 = [0]"
    by (simp_all add: pool1_def BufferPoolManager_init_def)
  ultimately show ?thesis
    by (simp add: pool1_evicted_fetch_eval pool1_fetch_eval)
qed

text \<open>
  C2 (the code departs from the claim). Page 0 is resident in frame 0 with pin count 1.
  \<open>DeletePage\<close> returns false, but it has already erased the page from the page table:
  the state is not the one before the call.
\<close>

theorem DeletePage_pinned_erases_mapping:
  "fmlookup (page_table pool1_new) 0 = Some 0 \<and>
   pin_count (pages pool1_new 0) = 1 \<and>
   fst (DeletePage cfg0 0 pool1_new) = Inr False \<and>
   fmlookup (page_table (snd (DeletePage cfg0 0 pool1_new))) 0 = None \<and>
   page_table (snd (DeletePage cfg0 0 pool1_new)) \<noteq> page_table pool1_new \<and>
   snd (DeletePage cfg0 0 pool1_new) \<noteq> pool1_new"
proof -
  have 1: "fmlookup (page_table pool1_new) 0 = Some 0" and 2: "pin_count (pages pool1_new 0) = 1"
    by (simp_all add: pool1_new_eval)
  have 3: "DeletePage cfg0 0 pool1_new =
             (Inr False, pool1_new\<lparr>page_table := fmdrop 0 (page_table pool1_new)\<rparr>)"
    by (rule DeletePage_pinned [OF 1]) (simp add: 2 word_sless_alt)
  have 4: "fmlookup (page_table (snd (DeletePage cfg0 0 pool1_new))) 0 = None"
    by (simp add: 3)
  have 5: "page_table (snd (DeletePage cfg0 0 pool1_new)) \<noteq> page_table pool1_new"
    using 1 4 by auto
  then have 6: "snd (DeletePage cfg0 0 pool1_new) \<noteq> pool1_new" by auto
  show ?thesis using 1 2 3 4 5 6 by simp
qed

text \<open>
  C3 (the code departs from the claim). A pool of one frame after \<open>NewPage\<close> and
  \<open>DeletePage\<close> of the page just created, which is still pinned: the free list and the
  page table are both empty, so their sizes add up to 0 and not to the pool size 1, and
  frame 0 is in neither.
\<close>

theorem capacity_broken_by_DeletePage:
  "pool_size (calls cfg0 [Call_NewPage, Call_DeletePage 0] pool1) = 1 \<and>
   free_list (calls cfg0 [Call_NewPage, Call_DeletePage 0] pool1) = [] \<and>
   page_table (calls cfg0 [Call_NewPage, Call_DeletePage 0] pool1) = fmempty \<and>
   length (free_list (calls cfg0 [Call_NewPage, Call_DeletePage 0] pool1)) +
     fcard (fmdom (page_table (calls cfg0 [Call_NewPage, Call_DeletePage 0] pool1)))
     \<noteq> pool_size (calls cfg0 [Call_NewPage, Call_DeletePage 0] pool1)"
proof -
  have 1: "fmlookup (page_table pool1_new) 0 = Some 0" and 2: "pin_count (pages pool1_new 0) = 1"
    by (simp_all add: pool1_new_eval)
  have 3: "DeletePage cfg0 0 pool1_new =
             (Inr False, pool1_new\<lparr>page_table := fmdrop 0 (page_table pool1_new)\<rparr>)"
    by (rule DeletePage_pinned [OF 1]) (simp add: 2 word_sless_alt)
  have "calls cfg0 [Call_NewPage, Call_DeletePage 0] pool1 = snd (DeletePage cfg0 0 pool1_new)"
    by (simp add: pool1_new_def)
  also have "\<dots> = pool1_new\<lparr>page_table := fmdrop 0 (page_table pool1_new)\<rparr>"
    by (simp add: 3)
  finally show ?thesis
    by (simp add: pool1_new_eval fcard_fempty fmdrop_fmupd_same)
qed

text \<open>
  C5, as stated, fails: page 0 is resident and clean, \<open>FlushPage\<close> returns true and issues
  no write; the pool is exactly as before.
\<close>

theorem FlushPage_clean_no_write:
  "fmlookup (page_table pool1_new) 0 = Some 0 \<and>
   \<not> is_dirty (pages pool1_new 0) \<and>
   fst (FlushPage 0 pool1_new) = True \<and>
   requests (disk_scheduler (snd (FlushPage 0 pool1_new))) = [] \<and>
   requests (disk_scheduler (snd (FlushPage 0 pool1_new))) \<noteq>
     requests (disk_scheduler pool1_new) @ [(True, 0)] \<and>
   snd (FlushPage 0 pool1_new) = pool1_new"
  by (simp add: FlushPage_def FlushFrame_def pool1_new_eval disk0_def)

text \<open>
  C5, amended. For a page resident in frame \<open>f\<close>, \<open>FlushPage\<close> returns true; if the frame
  is dirty it writes the frame's bytes to disk under the frame's page id and clears the
  dirty flag, and if the frame is clean it changes nothing and writes nothing; nothing else
  of the pool changes, and the frame is clean afterwards. The pin count has no influence on
  the result or on the disk. For a page that is not resident it returns false and changes
  nothing.
\<close>

theorem FlushPage_contract:
  "(\<forall>f. fmlookup (page_table s) pid = Some f \<longrightarrow>
        fst (FlushPage pid s) = True \<and>
        snd (FlushPage pid s) =
          (if is_dirty (pages s f)
           then s\<lparr>pages := (pages s)(f := (pages s f)\<lparr>is_dirty := False\<rparr>),
                  disk_scheduler := (disk_scheduler s)
                     \<lparr>disk_pages := (disk_pages (disk_scheduler s))
                                      (page_id (pages s f) := data (pages s f)),
                      requests := requests (disk_scheduler s) @ [(True, page_id (pages s f))]\<rparr>\<rparr>
           else s) \<and>
        \<not> is_dirty (pages (snd (FlushPage pid s)) f) \<and>
        (\<forall>c. fst (FlushPage pid (s\<lparr>pages := (pages s)(f := (pages s f)\<lparr>pin_count := c\<rparr>)\<rparr>)) = True \<and>
             disk_scheduler (snd (FlushPage pid (s\<lparr>pages := (pages s)(f := (pages s f)\<lparr>pin_count := c\<rparr>)\<rparr>)))
               = disk_scheduler (snd (FlushPage pid s)))) \<and>
   (fmlookup (page_table s) pid = None \<longrightarrow> FlushPage pid s = (False, s))"
  by (auto simp: FlushPage_def FlushFrame_def Schedule_def Let_def)

theorem FlushPage_contract_witness:
  "fmlookup (page_table pool1_dirty) 0 = Some 0 \<and>
   is_dirty (pages pool1_dirty 0) \<and>
   fst (FlushPage 0 pool1_dirty) = True \<and>
   requests (disk_scheduler (snd (FlushPage 0 pool1_dirty))) = [(True, 0)] \<and>
   disk_pages (disk_scheduler (snd (FlushPage 0 pool1_dirty))) 0 = data (pages pool1_dirty 0) \<and>
   \<not> is_dirty (pages (snd (FlushPage 0 pool1_dirty)) 0) \<and>
   fst (FlushPage 0 (pool1_dirty\<lparr>pages := (pages pool1_dirty)(0 := (pages pool1_dirty 0)\<lparr>pin_count := 3\<rparr>)\<rparr>)) = True \<and>
   fmlookup (page_table pool1_new) 0 = Some 0 \<and>
   \<not> is_dirty (pages pool1_new 0) \<and>
   snd (FlushPage 0 pool1_new) = pool1_new \<and>
   fmlookup (page_table pool1_new) 5 = None \<and>
   FlushPage 5 pool1_new = (False, pool1_new)"
proof -
  have d: "fmlookup (page_table pool1_dirty) 0 = Some 0" "is_dirty (pages pool1_dirty 0)"
    "page_id (pages pool1_dirty 0) = 0" "requests (disk_scheduler pool1_dirty) = []"
    by (simp_all add: pool1_dirty_eval disk0_def)
  have n: "fmlookup (page_table pool1_new) 0 = Some 0" "\<not> is_dirty (pages pool1_new 0)"
    "fmlookup (page_table pool1_new) 5 = None"
    by (simp_all add: pool1_new_eval)
  show ?thesis
    using FlushPage_contract [of pool1_dirty 0] FlushPage_contract [of pool1_new 0]
      FlushPage_contract [of pool1_new 5] d n
    by simp
qed

lemma pin_count_succ:
  fixes c :: "32 word"
  assumes "sint c < 2147483647"
  shows "sint (c + 1) = sint c + 1"
proof -
  have l: "- (2 ^ 31) \<le> sint c" using sint_ge [of c] by simp
  have "sint (c + 1) = signed_take_bit 31 (sint c + 1)" by (simp add: sint_word_ariths)
  also have "\<dots> = sint c + 1"
    using l assms by (intro signed_take_bit_int_eq_self) simp_all
  finally show ?thesis .
qed

lemma calls_append: "calls cfg (xs @ ys) s = calls cfg ys (calls cfg xs s)"
  by (induction xs arbitrary: s) simp_all

lemma pool1_fetched_Suc:
  "pool1_fetched (Suc m) = snd (FetchPage cfg0 0 (pool1_fetched m))"
proof -
  have "replicate (Suc m) (Call_FetchPage 0) = replicate m (Call_FetchPage 0) @ [Call_FetchPage 0]"
    by (simp add: replicate_append_same)
  then have "Call_NewPage # replicate (Suc m) (Call_FetchPage 0) =
             (Call_NewPage # replicate m (Call_FetchPage 0)) @ [Call_FetchPage 0]" by simp
  then show ?thesis unfolding pool1_fetched_def by (simp only: calls_append calls.simps call.simps)
qed

lemma pool1_fetched_0: "pool1_fetched 0 = pool1_new"
  by (simp add: pool1_fetched_def pool1_new_def)

lemma FetchPage_pinned_eval:
  assumes "length h \<le> 1"
  shows "FetchPage cfg0 0
     \<lparr>pool_size = 1,
      pages = (\<lambda>_. Page_init cfg0)(0 := \<lparr>data = [0, 0, 0, 0], page_id = 0, pin_count = c, is_dirty = False\<rparr>),
      replacer = \<lparr>node_store = fmupd 0 \<lparr>history = t # h, fid = 0, is_evictable = False, iter = 0\<rparr> fmempty,
                   evict_queue = [], current_timestamp = t, max_size = 1, evictable_size = 0,
                   lru_k = 2\<rparr>,
      free_list = [], page_table = fmupd 0 0 fmempty, next_page_id = 1, disk_scheduler = disk0\<rparr> =
   (Inr (Some 0),
     \<lparr>pool_size = 1,
      pages = (\<lambda>_. Page_init cfg0)(0 := \<lparr>data = [0, 0, 0, 0], page_id = 0, pin_count = c + 1, is_dirty = False\<rparr>),
      replacer = \<lparr>node_store = fmupd 0 \<lparr>history = [t + 1, t], fid = 0, is_evictable = False, iter = 0\<rparr> fmempty,
                   evict_queue = [], current_timestamp = t + 1, max_size = 1, evictable_size = 0,
                   lru_k = 2\<rparr>,
      free_list = [], page_table = fmupd 0 0 fmempty, next_page_id = 1, disk_scheduler = disk0\<rparr>)"
  using assms by (cases h) (simp_all add: FetchPage_def bpm_eval)

lemma pool1_fetched_eval:
  "pool1_fetched (Suc m) =
     \<lparr>pool_size = 1,
      pages = (\<lambda>_. Page_init cfg0)(0 := \<lparr>data = [0, 0, 0, 0], page_id = 0, pin_count = of_nat m + 2, is_dirty = False\<rparr>),
      replacer = \<lparr>node_store = fmupd 0 \<lparr>history = [of_nat m + 2, of_nat m + 1], fid = 0, is_evictable = False, iter = 0\<rparr> fmempty,
                   evict_queue = [], current_timestamp = of_nat m + 2, max_size = 1, evictable_size = 0,
                   lru_k = 2\<rparr>,
      free_list = [], page_table = fmupd 0 0 fmempty, next_page_id = 1, disk_scheduler = disk0\<rparr>"
proof (induction m)
  case 0
  show ?case
    unfolding pool1_fetched_Suc pool1_fetched_0 pool1_new_eval
    by (subst FetchPage_pinned_eval) simp_all
next
  case (Suc m)
  show ?case
    unfolding pool1_fetched_Suc [of "Suc m"] Suc.IH
    by (subst FetchPage_pinned_eval) (simp_all add: add.commute add.left_commute)
qed

text \<open>
  C10, as stated, fails when the pin count is \<open>2 ^ 31 - 1\<close>. In the pool of one frame, page 0
  has been created by \<open>NewPage\<close> and fetched 2147483646 times without being unpinned, so
  that its pin count is 2147483647. One more \<open>FetchPage\<close> takes the hit path and increments
  the 32-bit pin count, which overflows: the pin count is not one more than before (the
  model, as the machine, gives \<open>- (2 ^ 31)\<close>).
\<close>

theorem FetchPage_hit_pin_count_overflow:
  "fmlookup (page_table (pool1_fetched 2147483646)) 0 = Some 0 \<and>
   sint (pin_count (pages (pool1_fetched 2147483646) 0)) = 2147483647 \<and>
   fst (FetchPage cfg0 0 (pool1_fetched 2147483646)) = Inr (Some 0) \<and>
   sint (pin_count (pages (snd (FetchPage cfg0 0 (pool1_fetched 2147483646))) 0)) = - 2147483648 \<and>
   sint (pin_count (pages (snd (FetchPage cfg0 0 (pool1_fetched 2147483646))) 0)) \<noteq>
     sint (pin_count (pages (pool1_fetched 2147483646) 0)) + 1"
proof -
  have n: "(2147483646::nat) = Suc 2147483645" by simp
  have a: "fmlookup (page_table (pool1_fetched 2147483646)) 0 = Some 0"
    and b: "sint (pin_count (pages (pool1_fetched 2147483646) 0)) = 2147483647"
    unfolding n pool1_fetched_eval by simp_all
  have "FetchPage cfg0 0 (pool1_fetched 2147483646) =
          (Inr (Some 0), pool1_fetched (Suc 2147483646))"
    unfolding n pool1_fetched_eval by (subst FetchPage_pinned_eval) (simp_all add: add.commute)
  then have c: "fst (FetchPage cfg0 0 (pool1_fetched 2147483646)) = Inr (Some 0)"
    and e: "snd (FetchPage cfg0 0 (pool1_fetched 2147483646)) = pool1_fetched (Suc 2147483646)"
    by (simp_all only: fst_conv snd_conv)
  have d: "sint (pin_count (pages (snd (FetchPage cfg0 0 (pool1_fetched 2147483646))) 0))
              = - 2147483648"
    unfolding e pool1_fetched_eval by simp
  show ?thesis using a b c d by simp
qed

text \<open>
  C10, amended. \<open>FetchPage\<close> of a page resident in frame \<open>f\<close>, the frame being tracked by
  the replacer (as every resident frame is in a pool that has been constructed and used
  through its operations, see \<open>resident_frame_tracked\<close> below), returns \<open>f\<close> and increments
  the pin count of \<open>f\<close> on 32 bits: the pin count is exactly one more than before whenever
  it was below \<open>2 ^ 31 - 1\<close>; at \<open>2 ^ 31 - 1\<close> the increment overflows to \<open>- (2 ^ 31)\<close>. The
  buffer, the dirty flag and the page id of \<open>f\<close> and all other frames are as before; the
  free list, the page table and the disk, with its log of requests, are as before.
\<close>

theorem FetchPage_hit:
  assumes pt: "fmlookup (page_table s) pid = Some f"
    and tr: "fmlookup (node_store (replacer s)) f = Some n"
  shows "fst (FetchPage cfg pid s) = Inr (Some f) \<and>
         pages (snd (FetchPage cfg pid s)) =
           (pages s)(f := (pages s f)\<lparr>pin_count := pin_count (pages s f) + 1\<rparr>) \<and>
         pin_count (pages (snd (FetchPage cfg pid s)) f) = pin_count (pages s f) + 1 \<and>
         (sint (pin_count (pages s f)) < 2147483647 \<longrightarrow>
            sint (pin_count (pages (snd (FetchPage cfg pid s)) f)) = sint (pin_count (pages s f)) + 1) \<and>
         (sint (pin_count (pages s f)) = 2147483647 \<longrightarrow>
            sint (pin_count (pages (snd (FetchPage cfg pid s)) f)) = - 2147483648) \<and>
         data (pages (snd (FetchPage cfg pid s)) f) = data (pages s f) \<and>
         is_dirty (pages (snd (FetchPage cfg pid s)) f) = is_dirty (pages s f) \<and>
         page_id (pages (snd (FetchPage cfg pid s)) f) = page_id (pages s f) \<and>
         free_list (snd (FetchPage cfg pid s)) = free_list s \<and>
         page_table (snd (FetchPage cfg pid s)) = page_table s \<and>
         disk_scheduler (snd (FetchPage cfg pid s)) = disk_scheduler s"
proof -
  obtain r1 where r1: "RecordAccess f (replacer s) = (Inr (), r1)" "f |\<in>| fmdom (node_store r1)"
    using RecordAccess_tracked [OF tr] by (cases "RecordAccess f (replacer s)") auto
  obtain r2 where r2: "SetEvictable f False r1 = (Inr (), r2)"
    using SetEvictable_tracked [OF r1(2), of False] by (cases "SetEvictable f False r1") auto
  have F: "FetchPage cfg pid s =
             (Inr (Some f),
              s\<lparr>replacer := r2,
                pages := (pages s)(f := (pages s f)\<lparr>pin_count := pin_count (pages s f) + 1\<rparr>)\<rparr>)"
    using pt r1 r2 by (simp add: FetchPage_def Let_def)
  have up: "sint (pin_count (pages s f)) < 2147483647 \<longrightarrow>
              sint (pin_count (pages s f) + 1) = sint (pin_count (pages s f)) + 1"
    using pin_count_succ [of "pin_count (pages s f)"] by simp
  have ov: "sint (pin_count (pages s f)) = 2147483647 \<longrightarrow>
              sint (pin_count (pages s f) + 1) = - 2147483648"
  proof
    assume "sint (pin_count (pages s f)) = 2147483647"
    then have "sint (pin_count (pages s f)) = sint (2147483647 :: 32 word)" by simp
    then have "pin_count (pages s f) = 2147483647" by (rule signed_word_eqI)
    then show "sint (pin_count (pages s f) + 1) = - 2147483648" by simp
  qed
  show ?thesis unfolding F using up ov by simp
qed

theorem FetchPage_hit_witness:
  "fmlookup (page_table pool1_new) 0 = Some 0 \<and>
   (\<exists>n. fmlookup (node_store (replacer pool1_new)) 0 = Some n) \<and>
   fst (FetchPage cfg0 0 pool1_new) = Inr (Some 0) \<and>
   pin_count (pages pool1_new 0) = 1 \<and>
   sint (pin_count (pages pool1_new 0)) < 2147483647 \<and>
   pin_count (pages (snd (FetchPage cfg0 0 pool1_new)) 0) = 2 \<and>
   sint (pin_count (pages (snd (FetchPage cfg0 0 pool1_new)) 0)) = 2 \<and>
   free_list (snd (FetchPage cfg0 0 pool1_new)) = free_list pool1_new \<and>
   page_table (snd (FetchPage cfg0 0 pool1_new)) = page_table pool1_new \<and>
   requests (disk_scheduler (snd (FetchPage cfg0 0 pool1_new))) = [] \<and>
   fmlookup (page_table (pool1_fetched 2147483646)) 0 = Some 0 \<and>
   (\<exists>n. fmlookup (node_store (replacer (pool1_fetched 2147483646))) 0 = Some n) \<and>
   sint (pin_count (pages (pool1_fetched 2147483646) 0)) = 2147483647 \<and>
   sint (pin_count (pages (snd (FetchPage cfg0 0 (pool1_fetched 2147483646))) 0)) = - 2147483648"
proof -
  have 1: "fmlookup (page_table pool1_new) 0 = Some 0"
    and 2: "fmlookup (node_store (replacer pool1_new)) 0 =
              Some \<lparr>history = [1], fid = 0, is_evictable = False, iter = 0\<rparr>"
    and 3: "pin_count (pages pool1_new 0) = 1" "requests (disk_scheduler pool1_new) = []"
    by (simp_all add: pool1_new_eval disk0_def)
  have n: "(2147483646::nat) = Suc 2147483645" by simp
  have 4: "fmlookup (page_table (pool1_fetched 2147483646)) 0 = Some 0"
    and 5: "fmlookup (node_store (replacer (pool1_fetched 2147483646))) 0 =
              Some \<lparr>history = [of_nat 2147483645 + 2, of_nat 2147483645 + 1], fid = 0,
                     is_evictable = False, iter = 0\<rparr>"
    and 6: "sint (pin_count (pages (pool1_fetched 2147483646) 0)) = 2147483647"
    unfolding n pool1_fetched_eval by simp_all
  have 7: "sint (pin_count (pages pool1_new 0)) < 2147483647" by (simp add: 3)
  have 8: "fst (FetchPage cfg0 0 pool1_new) = Inr (Some 0) \<and>
           pin_count (pages (snd (FetchPage cfg0 0 pool1_new)) 0) = 2 \<and>
           sint (pin_count (pages (snd (FetchPage cfg0 0 pool1_new)) 0)) = 2 \<and>
           free_list (snd (FetchPage cfg0 0 pool1_new)) = free_list pool1_new \<and>
           page_table (snd (FetchPage cfg0 0 pool1_new)) = page_table pool1_new \<and>
           requests (disk_scheduler (snd (FetchPage cfg0 0 pool1_new))) = []"
    using FetchPage_hit [OF 1 2, of cfg0] 3 7 by simp
  have 9: "sint (pin_count (pages (snd (FetchPage cfg0 0 (pool1_fetched 2147483646))) 0))
             = - 2147483648"
    using FetchPage_hit [OF 4 5, of cfg0] 6 by blast
  show ?thesis using 1 2 3 4 5 6 7 8 9 by simp
qed

subsection \<open>The invariant of the pool holds after every call\<close>

lemma RecordAccess_dom:
  "max_size (snd (RecordAccess f r)) = max_size r \<and>
   fmdom (node_store (snd (RecordAccess f r))) =
     (if fst (RecordAccess f r) = Inr () then finsert f (fmdom (node_store r))
      else fmdom (node_store r))"
  by (auto simp: RecordAccess_def Let_def fmdomI split: option.splits)

lemma RecordAccess_no_throw:
  "f |\<in>| fmdom (node_store r) \<or> fcard (fmdom (node_store r)) < max_size r \<Longrightarrow>
   fst (RecordAccess f r) = Inr ()"
  by (auto simp: RecordAccess_def Let_def fmlookup_dom_iff split: option.splits)

lemma SetEvictable_dom:
  "max_size (snd (SetEvictable f b r)) = max_size r \<and>
   fmdom (node_store (snd (SetEvictable f b r))) = fmdom (node_store r)"
  by (auto simp: SetEvictable_def Let_def fmdomI split: option.splits)

lemma Remove_node_dom:
  "max_size (snd (Remove_node f r)) = max_size r \<and>
   fmdom (node_store (snd (Remove_node f r))) =
     (if fst (Remove_node f r) = Inr () then fmdom (node_store r) |-| {|f|}
      else fmdom (node_store r))"
  by (auto simp: Remove_node_def fmdom_notI split: option.splits)

lemma Evict_dom:
  assumes "queue_wf r"
  shows "max_size (snd (Evict r)) = max_size r \<and>
         (case fst (Evict r) of
            None \<Rightarrow> snd (Evict r) = r
          | Some f \<Rightarrow> f |\<in>| fmdom (node_store r) \<and>
                      fmdom (node_store (snd (Evict r))) = fmdom (node_store r) |-| {|f|})"
proof (cases "evict_queue r")
  case Nil
  then show ?thesis by (simp add: Evict_empty)
next
  case (Cons v q)
  have "v |\<in>| fmdom (node_store r)" using assms Cons by (auto simp: queue_wf_iff fmdomI)
  then show ?thesis by (auto simp: Evict_Cons_wf [OF assms Cons])
qed

lemma fcard_range_bound:
  assumes r: "\<forall>f. f |\<in>| D \<longrightarrow> 0 \<le> f \<and> f < int n"
    and g: "0 \<le> g" "g < int n" "g |\<notin>| D"
  shows "fcard D < n"
proof -
  have "fset (finsert g D) \<subseteq> int ` {0..<n}"
  proof
    fix x assume "x \<in> fset (finsert g D)"
    then have "0 \<le> x \<and> x < int n" using r g by auto
    then have "x = int (nat x)" "nat x < n" by auto
    then show "x \<in> int ` {0..<n}" by (metis atLeastLessThan_iff imageI zero_le)
  qed
  then have "card (fset (finsert g D)) \<le> card (int ` {0..<n})"
    by (intro card_mono) auto
  also have "\<dots> \<le> n" using card_image_le [of "{0..<n}" int] by simp
  finally have "fcard (finsert g D) \<le> n" by (simp add: fcard.rep_eq)
  then show ?thesis using g(3) by (simp add: fcard_finsert_if)
qed


lemma FlushFrame_fields:
  "pool_size (FlushFrame f s) = pool_size s \<and> replacer (FlushFrame f s) = replacer s \<and>
   free_list (FlushFrame f s) = free_list s \<and> page_table (FlushFrame f s) = page_table s \<and>
   page_id (pages (FlushFrame f s) g) = page_id (pages s g) \<and>
   pin_count (pages (FlushFrame f s) g) = pin_count (pages s g)"
  by (simp add: FlushFrame_def Let_def)

lemma bpm_invI:
  assumes "queue_wf (replacer s)"
    and "max_size (replacer s) = pool_size s"
    and "\<And>f. f |\<in>| fmdom (node_store (replacer s)) \<Longrightarrow> 0 \<le> f \<and> f < int (pool_size s)"
    and "\<And>f. f \<in> set (free_list s) \<Longrightarrow> 0 \<le> f \<and> f < int (pool_size s)"
    and "distinct (free_list s)"
    and "\<And>f. f \<in> set (free_list s) \<Longrightarrow> f |\<notin>| fmdom (node_store (replacer s))"
    and "\<And>pid f. fmlookup (page_table s) pid = Some f \<Longrightarrow>
           f |\<in>| fmdom (node_store (replacer s)) \<and> page_id (pages s f) = pid"
  shows "bpm_inv s"
  unfolding bpm_inv_def using assms by blast

lemma bpm_invD:
  assumes "bpm_inv s"
  shows "queue_wf (replacer s)"
    and "max_size (replacer s) = pool_size s"
    and "f |\<in>| fmdom (node_store (replacer s)) \<Longrightarrow> 0 \<le> f \<and> f < int (pool_size s)"
    and "g \<in> set (free_list s) \<Longrightarrow> 0 \<le> g \<and> g < int (pool_size s)"
    and "distinct (free_list s)"
    and "g \<in> set (free_list s) \<Longrightarrow> g |\<notin>| fmdom (node_store (replacer s))"
    and "fmlookup (page_table s) pid = Some f' \<Longrightarrow>
           f' |\<in>| fmdom (node_store (replacer s)) \<and> page_id (pages s f') = pid"
  using assms unfolding bpm_inv_def by blast+

lemma bpm_inv_cong:
  assumes "bpm_inv s"
    and "pool_size s' = pool_size s" "replacer s' = replacer s" "free_list s' = free_list s"
    and "page_table s' = page_table s" "\<forall>g. page_id (pages s' g) = page_id (pages s g)"
  shows "bpm_inv s'"
  using assms by (simp add: bpm_inv_def)

lemma bpm_inv_FlushFrame: "bpm_inv s \<Longrightarrow> bpm_inv (FlushFrame f s)"
  using bpm_inv_cong [of s "FlushFrame f s"] by (simp add: FlushFrame_fields)

lemma bpm_inv_init: "bpm_inv (BufferPoolManager_init cfg n k d)"
proof (rule bpm_invI)
  show "queue_wf (replacer (BufferPoolManager_init cfg n k d))"
    using queue_wf_init [of n k] by (simp add: BufferPoolManager_init_def)
  show "distinct (free_list (BufferPoolManager_init cfg n k d))"
    by (simp add: BufferPoolManager_init_def distinct_map)
qed (auto simp: BufferPoolManager_init_def LRUKReplacer_init_def)

lemma acquire_frame_free:
  "free_list s \<noteq> [] \<Longrightarrow>
   acquire_frame s = (Some (last (free_list s)), s\<lparr>free_list := butlast (free_list s)\<rparr>)"
  by (simp add: acquire_frame_def)

lemma acquire_frame_evict:
  "free_list s = [] \<Longrightarrow> Evict (replacer s) = (Some f, rep) \<Longrightarrow>
   acquire_frame s =
     (Some f, FlushFrame f (s\<lparr>replacer := rep,
                               page_table := fmdrop (page_id (pages s f)) (page_table s)\<rparr>))"
  by (simp add: acquire_frame_def)

lemma acquire_frame_full:
  "free_list s = [] \<Longrightarrow> Evict (replacer s) = (None, rep) \<Longrightarrow>
   acquire_frame s = (None, s\<lparr>replacer := rep\<rparr>)"
  by (simp add: acquire_frame_def)

lemma acquire_frame_None:
  assumes "bpm_inv s" and "fst (acquire_frame s) = None"
  shows "snd (acquire_frame s) = s"
proof -
  have q: "free_list s = []" using assms(2) acquire_frame_free [of s] by (cases "free_list s = []") auto
  have i: "queue_wf (replacer s)" using assms(1) by (rule bpm_invD(1))
  obtain v rep where e: "Evict (replacer s) = (v, rep)" by (cases "Evict (replacer s)")
  have "v = None"
    using assms(2) acquire_frame_evict [OF q, of _ rep] e by (cases v) auto
  then have "rep = replacer s" using Evict_dom [OF i] e by simp
  then show ?thesis using acquire_frame_full [OF q, of rep] e \<open>v = None\<close> by simp
qed

lemma free_frame_inv:
  assumes inv: "bpm_inv s" and ne: "free_list s \<noteq> []"
  shows "bpm_inv (s\<lparr>free_list := butlast (free_list s)\<rparr>) \<and>
         0 \<le> last (free_list s) \<and> last (free_list s) < int (pool_size s) \<and>
         last (free_list s) \<notin> set (butlast (free_list s)) \<and>
         last (free_list s) |\<notin>| fmdom (node_store (replacer s))"
proof -
  let ?f = "last (free_list s)"
  let ?s = "s\<lparr>free_list := butlast (free_list s)\<rparr>"
  have fin: "?f \<in> set (free_list s)" using ne by simp
  have d: "distinct (free_list s)" using inv by (rule bpm_invD(5))
  have "butlast (free_list s) @ [?f] = free_list s" using ne by simp
  then have "distinct (butlast (free_list s) @ [?f])" using d by simp
  then have nf: "?f \<notin> set (butlast (free_list s))" by simp
  have sub: "\<And>g. g \<in> set (butlast (free_list s)) \<Longrightarrow> g \<in> set (free_list s)"
    by (rule in_set_butlastD)
  have "bpm_inv ?s"
  proof (rule bpm_invI)
    show "queue_wf (replacer ?s)" using bpm_invD(1) [OF inv] by simp
    show "max_size (replacer ?s) = pool_size ?s" using bpm_invD(2) [OF inv] by simp
    show "distinct (free_list ?s)" using d by (simp add: distinct_butlast)
  next
    fix g assume "g |\<in>| fmdom (node_store (replacer ?s))"
    then show "0 \<le> g \<and> g < int (pool_size ?s)" using bpm_invD(3) [OF inv, of g] by simp
  next
    fix g assume "g \<in> set (free_list ?s)"
    then have g: "g \<in> set (free_list s)" using sub by simp
    show "0 \<le> g \<and> g < int (pool_size ?s)" using bpm_invD(4) [OF inv g] by simp
  next
    fix g assume "g \<in> set (free_list ?s)"
    then have g: "g \<in> set (free_list s)" using sub by simp
    show "g |\<notin>| fmdom (node_store (replacer ?s))" using bpm_invD(6) [OF inv g] by simp
  next
    fix pid g assume "fmlookup (page_table ?s) pid = Some g"
    then have "fmlookup (page_table s) pid = Some g" by simp
    from bpm_invD(7) [OF inv this]
    show "g |\<in>| fmdom (node_store (replacer ?s)) \<and> page_id (pages ?s g) = pid" by simp
  qed
  then show ?thesis
    using bpm_invD(4) [OF inv fin] bpm_invD(6) [OF inv fin] nf by simp
qed

lemma evict_frame_inv:
  assumes inv: "bpm_inv s" and q: "free_list s = []" and e: "Evict (replacer s) = (Some f, rep)"
  shows "bpm_inv (s\<lparr>replacer := rep, page_table := fmdrop (page_id (pages s f)) (page_table s)\<rparr>) \<and>
         0 \<le> f \<and> f < int (pool_size s) \<and> f |\<notin>| fmdom (node_store rep)"
proof -
  let ?s2 = "s\<lparr>replacer := rep, page_table := fmdrop (page_id (pages s f)) (page_table s)\<rparr>"
  have i: "queue_wf (replacer s)" using inv by (rule bpm_invD(1))
  have ed: "max_size rep = max_size (replacer s)" "f |\<in>| fmdom (node_store (replacer s))"
    "fmdom (node_store rep) = fmdom (node_store (replacer s)) |-| {|f|}"
    using Evict_dom [OF i] e by simp_all
  have ri: "queue_wf rep" using Evict_wf [OF i] e by simp
  have "bpm_inv ?s2"
  proof (rule bpm_invI)
    show "queue_wf (replacer ?s2)" using ri by simp
    show "max_size (replacer ?s2) = pool_size ?s2" using ed(1) bpm_invD(2) [OF inv] by simp
    show "distinct (free_list ?s2)" using q by simp
  next
    fix g assume "g |\<in>| fmdom (node_store (replacer ?s2))"
    then have "g |\<in>| fmdom (node_store (replacer s))" using ed(3) by simp
    from bpm_invD(3) [OF inv this] show "0 \<le> g \<and> g < int (pool_size ?s2)" by simp
  next
    fix g assume "g \<in> set (free_list ?s2)"
    then show "0 \<le> g \<and> g < int (pool_size ?s2)" using q by simp
  next
    fix g assume "g \<in> set (free_list ?s2)"
    then show "g |\<notin>| fmdom (node_store (replacer ?s2))" using q by simp
  next
    fix pid g assume l: "fmlookup (page_table ?s2) pid = Some g"
    have p: "pid \<noteq> page_id (pages s f)"
    proof
      assume "pid = page_id (pages s f)"
      then have "fmlookup (page_table ?s2) pid = None" by simp
      then show False using l by simp
    qed
    then have l0: "fmlookup (page_table s) pid = Some g" using l by simp
    note g = bpm_invD(7) [OF inv l0]
    then have "g \<noteq> f" using p by auto
    then show "g |\<in>| fmdom (node_store (replacer ?s2)) \<and> page_id (pages ?s2 g) = pid"
      using g ed(3) by simp
  qed
  then show ?thesis using bpm_invD(3) [OF inv ed(2)] ed(3) by simp
qed

lemma acquire_frame_Some:
  assumes inv: "bpm_inv s" and a: "fst (acquire_frame s) = Some f"
  shows "bpm_inv (snd (acquire_frame s)) \<and>
         pool_size (snd (acquire_frame s)) = pool_size s \<and>
         0 \<le> f \<and> f < int (pool_size s) \<and>
         f \<notin> set (free_list (snd (acquire_frame s))) \<and>
         f |\<notin>| fmdom (node_store (replacer (snd (acquire_frame s))))"
proof (cases "free_list s = []")
  case False
  have f: "f = last (free_list s)" using a acquire_frame_free [OF False] by simp
  show ?thesis
    using free_frame_inv [OF inv False] unfolding acquire_frame_free [OF False] f by simp
next
  case True
  obtain v rep where e0: "Evict (replacer s) = (v, rep)" by (cases "Evict (replacer s)")
  have "v = Some f"
  proof (cases v)
    case None
    then show ?thesis using a acquire_frame_full [OF True, of rep] e0 by simp
  next
    case (Some g)
    then show ?thesis using a acquire_frame_evict [OF True, of g rep] e0 by simp
  qed
  then have e: "Evict (replacer s) = (Some f, rep)" using e0 by simp
  let ?s2 = "s\<lparr>replacer := rep, page_table := fmdrop (page_id (pages s f)) (page_table s)\<rparr>"
  note ev = evict_frame_inv [OF inv True e]
  then have "bpm_inv (FlushFrame f ?s2)" using bpm_inv_FlushFrame by blast
  then show ?thesis
    using ev True unfolding acquire_frame_evict [OF True e] by (simp add: FlushFrame_fields)
qed


lemma install_inv:
  assumes inv: "bpm_inv s1"
    and f: "0 \<le> f" "f < int (pool_size s1)" "f \<notin> set (free_list s1)"
           "f |\<notin>| fmdom (node_store (replacer s1))"
    and s': "pool_size s' = pool_size s1" "free_list s' = free_list s1"
            "replacer s' = snd (SetEvictable f False (snd (RecordAccess f (replacer s1))))"
            "page_table s' = emplace pid f (page_table s1)"
            "\<And>g. g \<noteq> f \<Longrightarrow> page_id (pages s' g) = page_id (pages s1 g)"
            "page_id (pages s' f) = pid"
  shows "fst (RecordAccess f (replacer s1)) = Inr () \<and>
         fst (SetEvictable f False (snd (RecordAccess f (replacer s1)))) = Inr () \<and>
         bpm_inv s'"
proof -
  let ?r = "replacer s1"
  let ?ra = "RecordAccess f ?r"
  let ?se = "SetEvictable f False (snd ?ra)"
  have c: "fcard (fmdom (node_store ?r)) < max_size ?r"
    using fcard_range_bound [of "fmdom (node_store ?r)" "pool_size s1" f]
      bpm_invD(3) [OF inv] f bpm_invD(2) [OF inv] by simp
  have ra: "fst ?ra = Inr ()" using RecordAccess_no_throw [of f ?r] c by simp
  have d1: "fmdom (node_store (snd ?ra)) = finsert f (fmdom (node_store ?r))"
    "max_size (snd ?ra) = max_size ?r"
    using RecordAccess_dom [of f ?r] ra by simp_all
  have se: "fst ?se = Inr ()" using SetEvictable_tracked [of f "snd ?ra" False] d1 by simp
  have d2: "fmdom (node_store (snd ?se)) = finsert f (fmdom (node_store ?r))"
    "max_size (snd ?se) = max_size ?r"
    using SetEvictable_dom [of f False "snd ?ra"] d1 by simp_all
  have ri: "queue_wf (snd ?se)"
    using SetEvictable_wf [OF RecordAccess_wf [OF bpm_invD(1) [OF inv]]] by simp
  have "bpm_inv s'"
  proof (rule bpm_invI)
    show "queue_wf (replacer s')" using ri s'(3) by simp
    show "max_size (replacer s') = pool_size s'" using d2(2) s'(1,3) bpm_invD(2) [OF inv] by simp
    show "distinct (free_list s')" using bpm_invD(5) [OF inv] s'(2) by simp
  next
    fix g assume "g |\<in>| fmdom (node_store (replacer s'))"
    then have "g = f \<or> g |\<in>| fmdom (node_store ?r)" using d2(1) s'(3) by auto
    then show "0 \<le> g \<and> g < int (pool_size s')"
      using f(1,2) bpm_invD(3) [OF inv, of g] s'(1) by auto
  next
    fix g assume "g \<in> set (free_list s')"
    then have g: "g \<in> set (free_list s1)" using s'(2) by simp
    show "0 \<le> g \<and> g < int (pool_size s')" using bpm_invD(4) [OF inv g] s'(1) by simp
  next
    fix g assume "g \<in> set (free_list s')"
    then have g: "g \<in> set (free_list s1)" using s'(2) by simp
    then have "g \<noteq> f" using f(3) by auto
    then show "g |\<notin>| fmdom (node_store (replacer s'))"
      using bpm_invD(6) [OF inv g] d2(1) s'(3) by simp
  next
    fix p g assume l: "fmlookup (page_table s') p = Some g"
    show "g |\<in>| fmdom (node_store (replacer s')) \<and> page_id (pages s' g) = p"
    proof (cases "fmlookup (page_table s1) p = Some g")
      case True
      note g = bpm_invD(7) [OF inv True]
      then have "g \<noteq> f" using f(4) by auto
      then show ?thesis using g s'(5) [of g] d2(1) s'(3) by simp
    next
      case False
      then have "p = pid \<and> g = f"
        using l s'(4) by (auto simp: emplace_def split: if_splits)
      then show ?thesis using s'(6) d2(1) s'(3) by simp
    qed
  qed
  then show ?thesis using ra se by simp
qed

lemma NewPage_acquire:
  "NewPage cfg s =
     (case acquire_frame s of
        (None, s1) \<Rightarrow> (Inr None, s1)
      | (Some frame_id, s1) \<Rightarrow>
          (let pid = next_page_id s1;
               s2 = s1\<lparr>next_page_id := next_page_id s1 + 1\<rparr>;
               s3 = s2\<lparr>page_table := emplace pid frame_id (page_table s2)\<rparr>;
               page1 = ResetMemory (PAGE_SIZE cfg) ((pages s3 frame_id)\<lparr>page_id := pid, pin_count := 1\<rparr>);
               s4 = s3\<lparr>pages := (pages s3)(frame_id := page1)\<rparr>
           in case RecordAccess frame_id (replacer s4) of
                (Inl e, rep) \<Rightarrow> (Inl e, s4\<lparr>replacer := rep\<rparr>)
              | (Inr _, rep) \<Rightarrow>
                  (case SetEvictable frame_id False rep of
                     (Inl e, rep') \<Rightarrow> (Inl e, s4\<lparr>replacer := rep'\<rparr>)
                   | (Inr _, rep') \<Rightarrow> (Inr (Some (pid, frame_id)), s4\<lparr>replacer := rep'\<rparr>))))"
  unfolding NewPage_def acquire_frame_def by (rule refl)

lemma NewPage_inv:
  assumes inv: "bpm_inv s"
  shows "bpm_inv (snd (NewPage cfg s))"
proof (cases "fst (acquire_frame s)")
  case None
  then have "acquire_frame s = (None, s)"
    using acquire_frame_None [OF inv None] by (cases "acquire_frame s") simp
  then show ?thesis using inv by (simp add: NewPage_acquire)
next
  case (Some f)
  define s1 where "s1 = snd (acquire_frame s)"
  have a: "acquire_frame s = (Some f, s1)" using Some by (cases "acquire_frame s") (simp add: s1_def)
  note A = acquire_frame_Some [OF inv Some, folded s1_def]
  define pid where "pid = next_page_id s1"
  define s4 where "s4 = s1\<lparr>next_page_id := next_page_id s1 + 1,
                          page_table := emplace pid f (page_table s1),
                          pages := (pages s1)(f := ResetMemory (PAGE_SIZE cfg)
                                     ((pages s1 f)\<lparr>page_id := pid, pin_count := 1\<rparr>))\<rparr>"
  let ?ra = "RecordAccess f (replacer s1)"
  let ?se = "SetEvictable f False (snd ?ra)"
  have f: "0 \<le> f" "f < int (pool_size s1)" "f \<notin> set (free_list s1)"
           "f |\<notin>| fmdom (node_store (replacer s1))"
    using A by simp_all
  have I: "fst ?ra = Inr () \<and> fst ?se = Inr () \<and> bpm_inv (s4\<lparr>replacer := snd ?se\<rparr>)"
    by (rule install_inv [OF _ f, of _ pid]) (use A in \<open>simp_all add: s4_def ResetMemory_def\<close>)
  obtain r1 where r1: "?ra = (Inr (), r1)" using I by (cases ?ra) auto
  obtain r2 where r2: "SetEvictable f False r1 = (Inr (), r2)" using I r1 by (cases "SetEvictable f False r1") auto
  have "NewPage cfg s = (Inr (Some (pid, f)), s4\<lparr>replacer := r2\<rparr>)"
    using a r1 r2 by (simp add: NewPage_acquire Let_def s4_def pid_def)
  then show ?thesis using I r1 r2 by simp
qed


lemma FetchPage_acquire:
  "fmlookup (page_table s) pid = None \<Longrightarrow>
   FetchPage cfg pid s =
     (case acquire_frame s of
        (None, s1) \<Rightarrow> (Inr None, s1)
      | (Some frame_id, s1) \<Rightarrow>
          (let s2 = s1\<lparr>page_table := emplace pid frame_id (page_table s1)\<rparr>
           in case RecordAccess frame_id (replacer s2) of
                (Inl e, rep) \<Rightarrow> (Inl e, s2\<lparr>replacer := rep\<rparr>)
              | (Inr _, rep) \<Rightarrow>
                  (case SetEvictable frame_id False rep of
                     (Inl e, rep') \<Rightarrow> (Inl e, s2\<lparr>replacer := rep'\<rparr>)
                   | (Inr _, rep') \<Rightarrow>
                       (let s3 = s2\<lparr>replacer := rep'\<rparr>;
                            page1 = ResetMemory (PAGE_SIZE cfg)
                                      ((pages s3 frame_id)\<lparr>page_id := pid, pin_count := 0\<rparr>);
                            res = Schedule False (data page1) (page_id page1) (disk_scheduler s3);
                            page2 = page1\<lparr>data := fst res\<rparr>
                        in (Inr (Some frame_id),
                            s3\<lparr>pages := (pages s3)(frame_id := page2),
                               disk_scheduler := snd res\<rparr>)))))"
  unfolding FetchPage_def acquire_frame_def by simp

lemma tracked_update_inv:
  assumes inv: "bpm_inv s"
    and s': "pool_size s' = pool_size s" "free_list s' = free_list s"
            "page_table s' = page_table s" "\<And>g. page_id (pages s' g) = page_id (pages s g)"
            "queue_wf (replacer s')" "max_size (replacer s') = max_size (replacer s)"
            "fmdom (node_store (replacer s')) = fmdom (node_store (replacer s))"
  shows "bpm_inv s'"
proof (rule bpm_invI)
  show "queue_wf (replacer s')" by (rule s'(5))
  show "max_size (replacer s') = pool_size s'" using s'(1,6) bpm_invD(2) [OF inv] by simp
  show "distinct (free_list s')" using s'(2) bpm_invD(5) [OF inv] by simp
next
  fix g assume "g |\<in>| fmdom (node_store (replacer s'))"
  then show "0 \<le> g \<and> g < int (pool_size s')" using bpm_invD(3) [OF inv, of g] s'(1,7) by simp
next
  fix g assume "g \<in> set (free_list s')"
  then have g: "g \<in> set (free_list s)" using s'(2) by simp
  show "0 \<le> g \<and> g < int (pool_size s')" using bpm_invD(4) [OF inv g] s'(1) by simp
  show "g |\<notin>| fmdom (node_store (replacer s'))" using bpm_invD(6) [OF inv g] s'(7) by simp
next
  fix pid g assume "fmlookup (page_table s') pid = Some g"
  then have "fmlookup (page_table s) pid = Some g" using s'(3) by simp
  from bpm_invD(7) [OF inv this]
  show "g |\<in>| fmdom (node_store (replacer s')) \<and> page_id (pages s' g) = pid"
    using s'(4,7) by simp
qed

lemma FetchPage_inv:
  assumes inv: "bpm_inv s"
  shows "bpm_inv (snd (FetchPage cfg pid s))"
proof (cases "fmlookup (page_table s) pid")
  case (Some f)
  have tr: "f |\<in>| fmdom (node_store (replacer s))" using bpm_invD(7) [OF inv Some] by simp
  then obtain n where n: "fmlookup (node_store (replacer s)) f = Some n"
    by (auto simp: fmlookup_dom_iff)
  let ?ra = "RecordAccess f (replacer s)"
  have ra: "fst ?ra = Inr ()" "f |\<in>| fmdom (node_store (snd ?ra))"
    using RecordAccess_tracked [OF n] by simp_all
  let ?se = "SetEvictable f False (snd ?ra)"
  have se: "fst ?se = Inr ()" using SetEvictable_tracked [OF ra(2)] by simp
  obtain r1 where r1: "?ra = (Inr (), r1)" using ra by (cases ?ra) auto
  obtain r2 where r2: "SetEvictable f False r1 = (Inr (), r2)"
    using se r1 by (cases "SetEvictable f False r1") auto
  have F: "snd (FetchPage cfg pid s) =
             s\<lparr>replacer := r2,
               pages := (pages s)(f := (pages s f)\<lparr>pin_count := pin_count (pages s f) + 1\<rparr>)\<rparr>"
    using Some r1 r2 by (simp add: FetchPage_def Let_def)
  have ri: "queue_wf r2"
    using SetEvictable_wf [OF RecordAccess_wf [OF bpm_invD(1) [OF inv], of f], of f False] r1 r2
    by simp
  have d: "max_size r2 = max_size (replacer s)"
    "fmdom (node_store r2) = fmdom (node_store (replacer s))"
    using RecordAccess_dom [of f "replacer s"] SetEvictable_dom [of f False r1] r1 r2 ra tr
    by auto
  show ?thesis
    unfolding F by (rule tracked_update_inv [OF inv]) (use ri d in simp_all)
next
  case None
  show ?thesis
  proof (cases "fst (acquire_frame s)")
    case None
    then have "acquire_frame s = (None, s)"
      using acquire_frame_None [OF inv None] by (cases "acquire_frame s") simp
    then show ?thesis using inv \<open>fmlookup (page_table s) pid = None\<close>
      by (simp add: FetchPage_acquire)
  next
    case (Some f)
    define s1 where "s1 = snd (acquire_frame s)"
    have a: "acquire_frame s = (Some f, s1)"
      using Some by (cases "acquire_frame s") (simp add: s1_def)
    note A = acquire_frame_Some [OF inv Some, folded s1_def]
    let ?ra = "RecordAccess f (replacer s1)"
    let ?se = "SetEvictable f False (snd ?ra)"
    define pg where "pg = ResetMemory (PAGE_SIZE cfg) ((pages s1 f)\<lparr>page_id := pid, pin_count := 0\<rparr>)"
    define res where "res = Schedule False (data pg) (page_id pg) (disk_scheduler s1)"
    define s4 where "s4 = s1\<lparr>page_table := emplace pid f (page_table s1),
                            pages := (pages s1)(f := pg\<lparr>data := fst res\<rparr>),
                            disk_scheduler := snd res\<rparr>"
    have f: "0 \<le> f" "f < int (pool_size s1)" "f \<notin> set (free_list s1)"
           "f |\<notin>| fmdom (node_store (replacer s1))"
      using A by simp_all
    have I: "fst ?ra = Inr () \<and> fst ?se = Inr () \<and> bpm_inv (s4\<lparr>replacer := snd ?se\<rparr>)"
      by (rule install_inv [OF _ f, of _ pid])
         (use A in \<open>simp_all add: s4_def pg_def ResetMemory_def\<close>)
    obtain r1 where r1: "?ra = (Inr (), r1)" using I by (cases ?ra) auto
    obtain r2 where r2: "SetEvictable f False r1 = (Inr (), r2)"
      using I r1 by (cases "SetEvictable f False r1") auto
    have "FetchPage cfg pid s = (Inr (Some f), s4\<lparr>replacer := r2\<rparr>)"
      using a r1 r2 \<open>fmlookup (page_table s) pid = None\<close>
      by (simp add: FetchPage_acquire Let_def s4_def pg_def res_def)
    then show ?thesis using I r1 r2 by simp
  qed
qed

lemma UnpinPage_inv:
  assumes inv: "bpm_inv s"
  shows "bpm_inv (snd (UnpinPage pid dirty s))"
proof (cases "fmlookup (page_table s) pid")
  case None
  then show ?thesis using inv by (simp add: UnpinPage_def)
next
  case (Some f)
  show ?thesis
  proof (cases "pin_count (pages s f) = 0")
    case True
    then show ?thesis using inv Some by (simp add: UnpinPage_def)
  next
    case False
    have tr: "f |\<in>| fmdom (node_store (replacer s))" using bpm_invD(7) [OF inv Some] by simp
    define rr where "rr = (if pin_count (pages s f) - 1 = 0 then SetEvictable f True (replacer s)
                           else (Inr (), replacer s))"
    have ok: "fst rr = Inr ()"
      using SetEvictable_tracked [OF tr, of True] by (simp add: rr_def)
    have ri: "queue_wf (snd rr)"
      using SetEvictable_wf [OF bpm_invD(1) [OF inv], of f True] bpm_invD(1) [OF inv]
      by (simp add: rr_def)
    have d: "max_size (snd rr) = max_size (replacer s)"
      "fmdom (node_store (snd rr)) = fmdom (node_store (replacer s))"
      using SetEvictable_dom [of f True "replacer s"] by (simp_all add: rr_def)
    obtain r1 where r1: "rr = (Inr (), r1)" using ok by (cases rr) auto
    have U: "pool_size (snd (UnpinPage pid dirty s)) = pool_size s \<and>
      free_list (snd (UnpinPage pid dirty s)) = free_list s \<and>
      page_table (snd (UnpinPage pid dirty s)) = page_table s \<and>
      replacer (snd (UnpinPage pid dirty s)) = r1 \<and>
      (\<forall>g. page_id (pages (snd (UnpinPage pid dirty s)) g) = page_id (pages s g))"
    proof (cases "pin_count (pages s f) = 1")
      case True
      then have "SetEvictable f True (replacer s) = (Inr (), r1)" using r1 by (simp add: rr_def)
      then show ?thesis using Some False True by (simp add: UnpinPage_def Let_def)
    next
      case False
      then have "r1 = replacer s" using r1 by (simp add: rr_def)
      then show ?thesis
        using Some False \<open>pin_count (pages s f) \<noteq> 0\<close> by (simp add: UnpinPage_def Let_def)
    qed
    show ?thesis
      by (rule tracked_update_inv [OF inv]) (use ri d r1 U in simp_all)
  qed
qed

lemma FlushPage_inv: "bpm_inv s \<Longrightarrow> bpm_inv (snd (FlushPage pid s))"
  by (cases "fmlookup (page_table s) pid") (simp_all add: FlushPage_def bpm_inv_FlushFrame)

lemma DeletePage_inv:
  assumes inv: "bpm_inv s"
  shows "bpm_inv (snd (DeletePage cfg pid s))"
proof (cases "fmlookup (page_table s) pid")
  case None
  then show ?thesis using inv by (simp add: DeletePage_def)
next
  case (Some f)
  let ?s1 = "s\<lparr>page_table := fmdrop pid (page_table s)\<rparr>"
  note e = bpm_invD(7) [OF inv Some]
  have other: "\<And>p g. fmlookup (page_table ?s1) p = Some g \<Longrightarrow>
                 g \<noteq> f \<and> g |\<in>| fmdom (node_store (replacer s)) \<and> page_id (pages s g) = p"
  proof -
    fix p g assume l: "fmlookup (page_table ?s1) p = Some g"
    have pp: "p \<noteq> pid"
    proof
      assume "p = pid"
      then have "fmlookup (page_table ?s1) p = None" by simp
      then show False using l by simp
    qed
    then have l0: "fmlookup (page_table s) p = Some g" using l by simp
    note g = bpm_invD(7) [OF inv l0]
    then have "g \<noteq> f" using e pp by auto
    then show "g \<noteq> f \<and> g |\<in>| fmdom (node_store (replacer s)) \<and> page_id (pages s g) = p"
      using g by simp
  qed
  have i1: "bpm_inv ?s1"
  proof (rule bpm_invI)
    show "queue_wf (replacer ?s1)" using bpm_invD(1) [OF inv] by simp
    show "max_size (replacer ?s1) = pool_size ?s1" using bpm_invD(2) [OF inv] by simp
    show "distinct (free_list ?s1)" using bpm_invD(5) [OF inv] by simp
  next
    fix g assume "g |\<in>| fmdom (node_store (replacer ?s1))"
    then show "0 \<le> g \<and> g < int (pool_size ?s1)" using bpm_invD(3) [OF inv, of g] by simp
  next
    fix g assume "g \<in> set (free_list ?s1)"
    then have g: "g \<in> set (free_list s)" by simp
    show "0 \<le> g \<and> g < int (pool_size ?s1)" using bpm_invD(4) [OF inv g] by simp
    show "g |\<notin>| fmdom (node_store (replacer ?s1))" using bpm_invD(6) [OF inv g] by simp
  next
    fix p g assume "fmlookup (page_table ?s1) p = Some g"
    from other [OF this]
    show "g |\<in>| fmdom (node_store (replacer ?s1)) \<and> page_id (pages ?s1 g) = p" by simp
  qed
  show ?thesis
  proof (cases "0 <s pin_count (pages s f)")
    case True
    then show ?thesis using Some i1 by (simp add: DeletePage_def Let_def)
  next
    case False
    let ?rm = "Remove_node f (replacer s)"
    show ?thesis
    proof (cases "fst ?rm")
      case (Inl err)
      then have "snd ?rm = replacer s"
        by (auto simp: Remove_node_def split: option.splits if_splits)
      then have "snd (DeletePage cfg pid s) = ?s1"
        using Some False Inl by (cases ?rm) (auto simp: DeletePage_def Let_def)
      then show ?thesis using i1 by simp
    next
      case (Inr u)
      obtain r1 where r1: "?rm = (Inr (), r1)" using Inr by (cases ?rm) auto
      have d: "max_size r1 = max_size (replacer s)"
        "fmdom (node_store r1) = fmdom (node_store (replacer s)) |-| {|f|}"
        using Remove_node_dom [of f "replacer s"] r1 by simp_all
      have ri: "queue_wf r1" using Remove_node_wf [OF bpm_invD(1) [OF inv], of f] r1 by simp
      let ?s' = "snd (DeletePage cfg pid s)"
      have D: "pool_size ?s' = pool_size s" "page_table ?s' = fmdrop pid (page_table s)"
        "replacer ?s' = r1" "free_list ?s' = f # free_list s"
        "\<And>g. g \<noteq> f \<Longrightarrow> page_id (pages ?s' g) = page_id (pages s g)"
        using Some False r1
        by (simp_all add: DeletePage_def Let_def DeallocatePage_def FlushFrame_fields ResetMemory_def)
      have fnf: "f \<notin> set (free_list s)" using bpm_invD(6) [OF inv, of f] e by auto
      show ?thesis
      proof (rule bpm_invI)
        show "queue_wf (replacer ?s')" using ri D(3) by simp
        show "max_size (replacer ?s') = pool_size ?s'" using d(1) D(1,3) bpm_invD(2) [OF inv] by simp
        show "distinct (free_list ?s')" using bpm_invD(5) [OF inv] fnf D(4) by simp
      next
        fix g assume "g |\<in>| fmdom (node_store (replacer ?s'))"
        then have "g |\<in>| fmdom (node_store (replacer s))" using d(2) D(3) by simp
        from bpm_invD(3) [OF inv this] show "0 \<le> g \<and> g < int (pool_size ?s')" using D(1) by simp
      next
        fix g assume "g \<in> set (free_list ?s')"
        then have "g = f \<or> g \<in> set (free_list s)" using D(4) by simp
        then show "0 \<le> g \<and> g < int (pool_size ?s')"
          using bpm_invD(3) [OF inv, of f] e bpm_invD(4) [OF inv, of g] D(1) by auto
      next
        fix g assume "g \<in> set (free_list ?s')"
        then have "g = f \<or> g \<in> set (free_list s)" using D(4) by simp
        then show "g |\<notin>| fmdom (node_store (replacer ?s'))"
          using bpm_invD(6) [OF inv, of g] d(2) D(3) by auto
      next
        fix p g
        assume "fmlookup (page_table ?s') p = Some g"
        then have "fmlookup (page_table ?s1) p = Some g" using D(2) by simp
        from other [OF this]
        show "g |\<in>| fmdom (node_store (replacer ?s')) \<and> page_id (pages ?s' g) = p"
          using d(2) D(3) D(5) [of g] by simp
      qed
    qed
  qed
qed

lemma call_inv: "bpm_inv s \<Longrightarrow> bpm_inv (call cfg c s)"
  by (cases c) (simp_all add: NewPage_inv FetchPage_inv UnpinPage_inv FlushPage_inv DeletePage_inv)

lemma calls_inv: "bpm_inv s \<Longrightarrow> bpm_inv (calls cfg cs s)"
  by (induction cs arbitrary: s) (simp_all add: call_inv)

text \<open>
  In a pool that has been constructed and used through its five operations, every resident
  page is in a frame that the replacer tracks.
\<close>

lemma resident_frame_tracked:
  assumes "fmlookup (page_table (calls cfg cs (BufferPoolManager_init cfg n k d))) pid = Some f"
  shows "\<exists>nd. fmlookup (node_store (replacer (calls cfg cs (BufferPoolManager_init cfg n k d)))) f = Some nd"
  using bpm_invD(7) [OF calls_inv [OF bpm_inv_init] assms]
  by (simp add: fmlookup_dom_iff)

section \<open>Properties of the trie\<close>

subsection \<open>The loops of the source and the recursion over the key\<close>

lemma link_rec_snoc:
  "link_rec key j n (ms @ [a, b]) =
   link_rec key j n (ms @ [insert_or_assign (key ! (Suc (j + length ms))) b a])"
  by (induction ms arbitrary: j n) simp_all

lemma link_nodes_Cons:
  "i \<le> length xs \<Longrightarrow> link_nodes key (x # xs) i ! 0 = link_rec key 0 x (take i xs)"
proof (induction i arbitrary: x xs)
  case 0
  then show ?case by simp
next
  case (Suc i)
  show ?case
  proof (cases i)
    case 0
    then obtain y ys where xs: "xs = y # ys" using Suc.prems by (cases xs) auto
    show ?thesis using 0 xs by simp
  next
    case (Suc i')
    have i': "i' < length xs" "Suc i' < length xs" using Suc Suc.prems by auto
    let ?Y = "insert_or_assign (key ! Suc i') (xs ! Suc i') (xs ! i')"
    have "link_nodes key (x # xs) (Suc i) ! 0 = link_nodes key (x # xs[i' := ?Y]) i ! 0"
      using Suc by simp
    also have "\<dots> = link_rec key 0 x (take i (xs[i' := ?Y]))"
      using Suc.IH [of "xs[i' := ?Y]" x] Suc.prems by simp
    also have "take i (xs[i' := ?Y]) = take i' xs @ [?Y]"
      using i' Suc by (simp add: take_Suc_conv_app_nth)
    also have "link_rec key 0 x (take i' xs @ [?Y]) = link_rec key 0 x (take i' xs @ [xs ! i', xs ! Suc i'])"
      using link_rec_snoc [of key 0 x "take i' xs" "xs ! i'" "xs ! Suc i'"] i' by simp
    also have "take i' xs @ [xs ! i', xs ! Suc i'] = take (Suc i) xs"
      using i' Suc by (simp add: take_Suc_conv_app_nth)
    finally show ?thesis .
  qed
qed

lemma link_rec_shift: "link_rec (c # key) (Suc j) n ms = link_rec key j n ms"
  by (induction ms arbitrary: j n) simp_all

lemma link_rec_Cons:
  "link_rec (c # key) 0 n (m # ms) = insert_or_assign c (link_rec key 0 m ms) n"
  by (simp add: link_rec_shift)

lemma FindPath_Cons:
  "FindPath (Some n) (c # key) = n # FindPath (fmlookup (children n) c) key"
  by (simp add: FindPath_def split: option.splits)

lemma FindPath_None: "FindPath None key = []"
  by (simp add: FindPath_def)

lemma FindPath_Nil: "FindPath (Some n) [] = [n]"
  by (simp add: FindPath_def)

lemma map_upt_Suc_shift: "map f [0..<Suc m] = f 0 # map (\<lambda>i. f (Suc i)) [0..<m]"
  by (simp add: map_upt_Suc del: upt_Suc)

lemma Put_new_nodes_Cons:
  "Put_new_nodes (FindPath (Some n) (c # key)) (c # key) v =
     Clone n # Put_new_nodes (FindPath (fmlookup (children n) c) key) key v"
proof -
  let ?p = "FindPath (fmlookup (children n) c) key"
  have 1: "(length (n # ?p) = length (c # key) + 1) = (length ?p = length key + 1)" by simp
  have 2: "length ?p = length key + 1 \<Longrightarrow> last (n # ?p) = last ?p" by auto
  show ?thesis
    unfolding FindPath_Cons Put_new_nodes_def
    using 2 by (simp add: map_upt_Suc_shift del: upt_Suc)
qed

lemma Put_new_nodes_None_Cons:
  "Put_new_nodes [] (c # key) v = TrieNode fmempty None # Put_new_nodes [] key v"
  unfolding Put_new_nodes_def by (simp add: map_upt_Suc_shift del: upt_Suc)

lemma Put_new_nodes_length: "length (Put_new_nodes path key v) = length key + 1"
  by (simp add: Put_new_nodes_def)

lemma Put_new_nodes_link:
  "Put_new_nodes (FindPath nopt key) key v = x # xs \<Longrightarrow> link_rec key 0 x xs = put_node nopt key v"
proof (induction key arbitrary: nopt x xs)
  case Nil
  then show ?case
    by (cases nopt) (auto simp: Put_new_nodes_def FindPath_def)
next
  case (Cons c key)
  show ?case
  proof (cases nopt)
    case None
    let ?nn = "Put_new_nodes (FindPath None key) key v"
    obtain y ys where y: "?nn = y # ys"
      using Put_new_nodes_length [of "FindPath None key" key v] by (cases ?nn) auto
    have "x = TrieNode fmempty None" "xs = y # ys"
      using Cons.prems None y by (simp_all add: FindPath_None Put_new_nodes_None_Cons)
    then show ?thesis
      using Cons.IH [OF y] None by (simp add: link_rec_shift insert_or_assign_def)
  next
    case (Some n)
    let ?nn = "Put_new_nodes (FindPath (fmlookup (children n) c) key) key v"
    obtain y ys where y: "?nn = y # ys"
      using Put_new_nodes_length [of "FindPath (fmlookup (children n) c) key" key v] by (cases ?nn) auto
    have "x = Clone n" "xs = y # ys"
      using Cons.prems Some y by (simp_all add: Put_new_nodes_Cons)
    then show ?thesis
      using Cons.IH [OF y] Some by (simp add: link_rec_shift insert_or_assign_def Clone_def)
  qed
qed

lemma Put_eq: "Put rt key0 v = Some (put_node rt (strip_nul key0) v)"
proof -
  let ?key = "strip_nul key0"
  let ?nn = "Put_new_nodes (FindPath rt ?key) ?key v"
  obtain x xs where x: "?nn = x # xs"
    using Put_new_nodes_length [of "FindPath rt ?key" ?key v] by (cases ?nn) auto
  have l: "length xs = length ?key"
    using Put_new_nodes_length [of "FindPath rt ?key" ?key v] x by simp
  have "link_nodes ?key ?nn (length ?nn - 1) ! 0 = link_rec ?key 0 x (take (length xs) xs)"
    unfolding x using link_nodes_Cons [of "length xs" xs ?key x] by simp
  also have "\<dots> = put_node rt ?key v"
    using Put_new_nodes_link [OF x] by simp
  finally show ?thesis by (simp add: Put_def Let_def)
qed


lemma FindPath_from_length: "length (FindPath_from n key) \<le> length key + 1"
  by (induction key arbitrary: n) (auto split: option.splits)

lemma FindPath_from_nonempty: "FindPath_from n key \<noteq> []"
  by (cases key) (auto split: option.splits)

lemma FindPath_from_complete:
  "length (FindPath_from n key) = length key + 1 \<longleftrightarrow> lookup_node n key \<noteq> None"
proof (induction key arbitrary: n)
  case Nil
  then show ?case by simp
next
  case (Cons c key)
  then show ?case by (cases "fmlookup (children n) c") simp_all
qed

lemma FindPath_from_last:
  "lookup_node n key = Some m \<Longrightarrow> last (FindPath_from n key) = m"
proof (induction key arbitrary: n)
  case Nil
  then show ?case by simp
next
  case (Cons c key)
  then show ?case
    by (cases "fmlookup (children n) c") (simp_all add: FindPath_from_nonempty)
qed

lemma FindPath_from_lookup:
  "lookup_node n key = Some m \<Longrightarrow>
   length (FindPath_from n key) = length key + 1 \<and> last (FindPath_from n key) = m"
  using FindPath_from_complete [of n key] FindPath_from_last [of n key m] by simp

lemma prune_Cons:
  "prune (n # p) (Suc i) =
     (if prune p i = 0
      then (if \<not> is_value_node n \<and> fcard (fmdom (children n)) = 1 then 0 else 1)
      else Suc (prune p i))"
  by (induction i) simp_all

lemma prune_le: "prune p i \<le> i"
  by (induction i) (simp_all add: le_Suc_eq)

lemma Remove_sum_Cons:
  assumes "p \<noteq> []"
  shows "Remove_sum (n # p) =
     (if Remove_sum p = 0
      then (if \<not> is_value_node n \<and> fcard (fmdom (children n)) = 1 then 0 else 1)
      else Suc (Remove_sum p))"
proof -
  obtain l where l: "length p = Suc l" using assms by (cases p) auto
  have 1: "(n # p) ! (length (n # p) - 1) = p ! (length p - 1)" using l by simp
  show ?thesis
    unfolding Remove_sum_def 1 using l prune_Cons [of n p l] by simp
qed

lemma Remove_sum_le: "Remove_sum p \<le> length p"
  unfolding Remove_sum_def using prune_le [of p "length p - 1"] by auto

lemma Remove_new_nodes_Cons:
  assumes "0 < s"
  shows "Remove_new_nodes (n # p) (c # key) (Suc s) = Clone n # Remove_new_nodes p key s"
proof -
  obtain s' where s': "s = Suc s'" using assms by (cases s) auto
  show ?thesis
    unfolding Remove_new_nodes_def s'
    by (simp add: map_upt_Suc_shift del: upt_Suc)
qed

lemma Remove_new_nodes_length: "length (Remove_new_nodes p key s) = s - 1 + 1"
  by (simp add: Remove_new_nodes_def)

lemma Remove_build_eq:
  "lookup_node n key = Some m \<Longrightarrow> Remove_build (FindPath_from n key) key = remove_node n key"
proof (induction key arbitrary: n)
  case Nil
  then show ?case
    by (simp add: Remove_build_def Remove_sum_def Remove_new_nodes_def Let_def)
next
  case (Cons c key)
  then obtain ch where ch: "fmlookup (children n) c = Some ch" and m: "lookup_node ch key = Some m"
    by (cases "fmlookup (children n) c") auto
  let ?p = "FindPath_from ch key"
  have p: "FindPath_from n (c # key) = n # ?p" using ch by simp
  have pne: "?p \<noteq> []" by (rule FindPath_from_nonempty)
  have ih: "Remove_build ?p key = remove_node ch key" by (rule Cons.IH [OF m])
  note sum = Remove_sum_Cons [OF pne, of n]
  show ?case
  proof (cases "Remove_sum ?p = 0")
    case True
    then have r: "remove_node ch key = None" using ih by (simp add: Remove_build_def Let_def)
    show ?thesis
    proof (cases "\<not> is_value_node n \<and> fcard (fmdom (children n)) = 1")
      case True
      then show ?thesis
        using \<open>Remove_sum ?p = 0\<close> r ch sum unfolding p by (simp add: Remove_build_def Let_def)
    next
      case False
      then have s1: "Remove_sum (n # ?p) = 1" using \<open>Remove_sum ?p = 0\<close> sum by simp
      have "Remove_build (n # ?p) (c # key) =
              Some (TrieNode (fmdrop c (children n)) (node_value n))"
        unfolding Remove_build_def Let_def s1
        by (simp add: Remove_new_nodes_def Clone_def)
      then show ?thesis using False r ch unfolding p by simp
    qed
  next
    case False
    define s where "s = Remove_sum ?p"
    have spos: "0 < s" using False by (simp add: s_def)
    have s1: "Remove_sum (n # ?p) = Suc s" using False sum by (simp add: s_def)
    let ?nn = "Remove_new_nodes ?p key s"
    obtain y ys where y: "?nn = y # ys"
      using Remove_new_nodes_length [of ?p key s] by (cases ?nn) auto
    have ly: "length ys = s - 1"
      using Remove_new_nodes_length [of ?p key s] y by simp
    have "Remove_build ?p key = Some (link_nodes key ?nn (s - 1) ! 0)"
      using False by (simp add: Remove_build_def s_def Let_def)
    also have "link_nodes key ?nn (s - 1) ! 0 = link_rec key 0 y ys"
      unfolding y using link_nodes_Cons [of "s - 1" ys key y] ly by simp
    finally have r: "remove_node ch key = Some (link_rec key 0 y ys)" using ih by simp
    have nn: "Remove_new_nodes (n # ?p) (c # key) (Suc s) = Clone n # y # ys"
      by (simp add: Remove_new_nodes_Cons [OF spos] y)
    have "Remove_build (n # ?p) (c # key) =
            Some (link_nodes (c # key) (Clone n # y # ys) s ! 0)"
      unfolding Remove_build_def Let_def s1 nn by simp
    also have "link_nodes (c # key) (Clone n # y # ys) s ! 0 =
                 link_rec (c # key) 0 (Clone n) (y # ys)"
      using link_nodes_Cons [of s "y # ys" "c # key" "Clone n"] ly spos by simp
    also have "\<dots> = TrieNode (fmupd c (link_rec key 0 y ys) (children n)) (node_value n)"
      by (simp add: link_rec_shift insert_or_assign_def Clone_def)
    finally show ?thesis using r ch unfolding p by simp
  qed
qed

lemma bound_Some:
  "bound (Some n) key0 \<longleftrightarrow> (\<exists>m. lookup_node n (strip_nul key0) = Some m \<and> is_value_node m)"
  by (auto simp: bound_def lookup_trie_def split: option.splits)

lemma bound_None: "\<not> bound None key0"
  by (simp add: bound_def lookup_trie_def)

lemma bound_iff_path:
  "bound rt key0 \<longleftrightarrow>
     \<not> (length (FindPath rt (strip_nul key0)) \<noteq> length (strip_nul key0) + 1 \<or>
        \<not> is_value_node (last (FindPath rt (strip_nul key0))))"
proof (cases rt)
  case None
  then show ?thesis by (simp add: bound_None FindPath_None)
next
  case (Some n)
  show ?thesis
  proof (cases "lookup_node n (strip_nul key0)")
    case None
    then show ?thesis
      using Some FindPath_from_complete [of n "strip_nul key0"]
      by (simp add: bound_Some FindPath_def)
  next
    case (Some m)
    then show ?thesis
      using \<open>rt = Some n\<close> FindPath_from_lookup [OF Some]
      by (simp add: bound_Some FindPath_def)
  qed
qed

lemma Remove_eq:
  "Remove rt key0 =
     (case rt of
        None \<Rightarrow> None
      | Some n \<Rightarrow> if bound rt key0 then remove_node n (strip_nul key0) else rt)"
proof (cases rt)
  case None
  then show ?thesis by (simp add: Remove_def FindPath_None)
next
  case (Some n)
  show ?thesis
  proof (cases "bound rt key0")
    case False
    then show ?thesis
      using Some bound_iff_path [of rt key0] by (auto simp: Remove_def Let_def)
  next
    case True
    then obtain m where m: "lookup_node n (strip_nul key0) = Some m"
      using Some by (auto simp: bound_Some)
    have "Remove rt key0 = Remove_build (FindPath rt (strip_nul key0)) (strip_nul key0)"
      using True bound_iff_path [of rt key0] by (auto simp: Remove_def Let_def)
    then show ?thesis
      using True Some Remove_build_eq [OF m] by (simp add: FindPath_def)
  qed
qed

lemma Get_eq:
  "Get T rt key0 =
     (case rt of
        None \<Rightarrow> None
      | Some n \<Rightarrow>
          (case lookup_node n (strip_nul key0) of
             None \<Rightarrow> None
           | Some m \<Rightarrow> (case node_value m of None \<Rightarrow> None | Some v \<Rightarrow> if T v then Some v else None)))"
proof (cases rt)
  case None
  then show ?thesis by (simp add: Get_def FindPath_None)
next
  case (Some n)
  show ?thesis
  proof (cases "lookup_node n (strip_nul key0)")
    case None
    then show ?thesis
      using Some FindPath_from_complete [of n "strip_nul key0"]
      by (simp add: Get_def FindPath_def)
  next
    case (Some m)
    then show ?thesis
      using \<open>rt = Some n\<close> FindPath_from_lookup [OF Some]
      by (simp add: Get_def FindPath_def)
  qed
qed


lemma lookup_put_node:
  "\<exists>ch. lookup_node (put_node nopt key v) key = Some (TrieNode ch (Some v))"
  by (induction key arbitrary: nopt) (simp_all add: Let_def)

lemma Get_Put_same: "Get T (Put t k v) k = (if T v then Some v else None)"
proof -
  obtain ch where "lookup_node (put_node t (strip_nul k) v) (strip_nul k) = Some (TrieNode ch (Some v))"
    using lookup_put_node [of t "strip_nul k" v] by blast
  then show ?thesis by (simp add: Get_eq Put_eq)
qed

lemma remove_node_lookup:
  "remove_node n key = Some n' \<Longrightarrow> lookup_node n key = Some m \<Longrightarrow>
   (case lookup_node n' key of None \<Rightarrow> True | Some m' \<Rightarrow> node_value m' = None)"
proof (induction key arbitrary: n n')
  case Nil
  then show ?case by (auto split: if_splits)
next
  case (Cons c key)
  then obtain ch where ch: "fmlookup (children n) c = Some ch" and m: "lookup_node ch key = Some m"
    by (cases "fmlookup (children n) c") auto
  show ?case
  proof (cases "remove_node ch key")
    case None
    then show ?thesis using Cons.prems ch by (auto split: if_splits)
  next
    case (Some ch')
    then have "n' = TrieNode (fmupd c ch' (children n)) (node_value n)"
      using Cons.prems ch by simp
    then show ?thesis using Cons.IH [OF Some m] by simp
  qed
qed

lemma Get_Remove_same: "Get T (Remove t k) k = None"
proof (cases t)
  case None
  then show ?thesis by (simp add: Remove_eq Get_eq)
next
  case (Some n)
  show ?thesis
  proof (cases "bound t k")
    case False
    then show ?thesis
      using Some by (auto simp: Remove_eq Get_eq bound_Some is_value_node_def split: option.splits)
  next
    case True
    then obtain m where m: "lookup_node n (strip_nul k) = Some m"
      using Some by (auto simp: bound_Some)
    show ?thesis
    proof (cases "remove_node n (strip_nul k)")
      case None
      then show ?thesis using True Some by (simp add: Remove_eq Get_eq)
    next
      case (Some n')
      from remove_node_lookup [OF Some m] show ?thesis
        using True \<open>t = Some n\<close> Some by (auto simp: Remove_eq Get_eq split: option.splits)
    qed
  qed
qed

lemma no_nonvalue_leaf_iff:
  "no_nonvalue_leaf n \<longleftrightarrow>
     (node_value n = None \<longrightarrow> children n \<noteq> fmempty) \<and>
     (\<forall>c ch. fmlookup (children n) c = Some ch \<longrightarrow> no_nonvalue_leaf ch)"
  by (cases n) (auto simp: fmpred_iff)

lemma fmupd_nonempty: "fmupd c x m \<noteq> fmempty"
proof
  assume "fmupd c x m = fmempty"
  then have "fmlookup (fmupd c x m) c = fmlookup fmempty c" by simp
  then show False by simp
qed

lemma fmdrop_nonempty:
  assumes "fmlookup m c = Some x" and "fcard (fmdom m) \<noteq> 1"
  shows "fmdrop c m \<noteq> fmempty"
proof
  assume e: "fmdrop c m = fmempty"
  have "fmdom m = {|c|}"
  proof (rule fset_eqI)
    fix a
    have "fmlookup (fmdrop c m) a = None" using e by simp
    then have n: "a \<noteq> c \<Longrightarrow> fmlookup m a = None" by (simp split: if_splits)
    show "a |\<in>| fmdom m \<longleftrightarrow> a |\<in>| {|c|}"
    proof (cases "a = c")
      case True
      then show ?thesis using assms(1) by (simp add: fmlookup_dom_iff)
    next
      case False
      then show ?thesis using n by (simp add: fmlookup_dom_iff)
    qed
  qed
  then have "fcard (fmdom m) = 1" by (simp add: fcard_finsert_if fcard_fempty)
  then show False using assms(2) by simp
qed

lemma put_node_wf:
  "wf_trie nopt \<Longrightarrow> no_nonvalue_leaf (put_node nopt key v)"
proof (induction key arbitrary: nopt)
  case Nil
  then show ?case
    by (cases nopt) (auto simp: wf_trie_def no_nonvalue_leaf_iff [of "TrieNode _ _"]
        dest: no_nonvalue_leaf_iff [THEN iffD1])
next
  case (Cons c key)
  define n0 where "n0 = (case nopt of None \<Rightarrow> TrieNode fmempty None | Some n \<Rightarrow> n)"
  have ch: "\<forall>a x. fmlookup (children n0) a = Some x \<longrightarrow> no_nonvalue_leaf x"
    using Cons.prems
    by (cases nopt) (auto simp: n0_def wf_trie_def dest: no_nonvalue_leaf_iff [THEN iffD1])
  then have "wf_trie (fmlookup (children n0) c)"
    by (auto simp: wf_trie_def split: option.splits)
  then have "no_nonvalue_leaf (put_node (fmlookup (children n0) c) key v)" by (rule Cons.IH)
  then have "no_nonvalue_leaf (TrieNode (fmupd c (put_node (fmlookup (children n0) c) key v) (children n0))
               (node_value n0))"
    using ch by (subst no_nonvalue_leaf_iff) (auto simp: fmupd_nonempty)
  then show ?case by (simp add: n0_def Let_def)
qed

lemma remove_node_wf:
  "no_nonvalue_leaf n \<Longrightarrow> remove_node n key = Some n' \<Longrightarrow> no_nonvalue_leaf n'"
proof (induction key arbitrary: n n')
  case Nil
  then have n': "n' = TrieNode (children n) None" "children n \<noteq> fmempty"
    by (auto split: if_splits)
  show ?case
    unfolding n' using n'(2) Nil.prems(1)
    by (subst no_nonvalue_leaf_iff) (auto dest: no_nonvalue_leaf_iff [THEN iffD1])
next
  case (Cons c key)
  have chn: "\<forall>a x. fmlookup (children n) a = Some x \<longrightarrow> no_nonvalue_leaf x"
    using Cons.prems(1) by (auto dest: no_nonvalue_leaf_iff [THEN iffD1])
  show ?case
  proof (cases "fmlookup (children n) c")
    case None
    then show ?thesis using Cons.prems by simp
  next
    case (Some ch)
    note ch = this
    show ?thesis
    proof (cases "remove_node ch key")
      case None
      then have c: "\<not> (\<not> is_value_node n \<and> fcard (fmdom (children n)) = 1)"
        and n': "n' = TrieNode (fmdrop c (children n)) (node_value n)"
        using Cons.prems(2) ch by (auto split: if_splits)
      have "node_value n = None \<longrightarrow> fmdrop c (children n) \<noteq> fmempty"
        using c fmdrop_nonempty [OF ch] by (auto simp: is_value_node_def)
      then show ?thesis
        unfolding n' using chn
        by (subst no_nonvalue_leaf_iff) (auto split: if_splits)
    next
      case (Some ch')
      then have n': "n' = TrieNode (fmupd c ch' (children n)) (node_value n)"
        using Cons.prems(2) ch by simp
      have "no_nonvalue_leaf ch" using chn ch by blast
      then have "no_nonvalue_leaf ch'" using Cons.IH Some by blast
      then show ?thesis
        unfolding n' using chn
        by (subst no_nonvalue_leaf_iff) (auto simp: fmupd_nonempty)
    qed
  qed
qed

lemma Put_wf: "wf_trie t \<Longrightarrow> wf_trie (Put t key v)"
  by (simp add: Put_eq wf_trie_def [of "Some _"] put_node_wf)

lemma Remove_wf: "wf_trie t \<Longrightarrow> wf_trie (Remove t key)"
  by (auto simp: Remove_eq wf_trie_def split: option.splits dest: remove_node_wf)

lemma reachable_wf: "reachable t \<Longrightarrow> wf_trie t"
  by (induction rule: reachable.induct) (simp_all add: Put_wf Remove_wf wf_trie_def [of None])


lemma fmupd_same: "fmlookup m c = Some x \<Longrightarrow> fmupd c x m = m"
  by (rule fmap_ext) auto

lemma TrieNode_collapse: "TrieNode (children n) (node_value n) = n"
  by (cases n) simp

lemma remove_put_node:
  "wf_trie nopt \<Longrightarrow>
   (case lookup_trie nopt key of None \<Rightarrow> True | Some m \<Rightarrow> \<not> is_value_node m) \<Longrightarrow>
   remove_node (put_node nopt key v) key = nopt"
proof (induction key arbitrary: nopt)
  case Nil
  show ?case
  proof (cases nopt)
    case None
    then show ?thesis by simp
  next
    case (Some n)
    then have v: "node_value n = None" using Nil.prems(2)
      by (simp add: lookup_trie_def is_value_node_def)
    then have "children n \<noteq> fmempty"
      using Nil.prems(1) Some by (auto simp: wf_trie_def dest: no_nonvalue_leaf_iff [THEN iffD1])
    then show ?thesis using Some v TrieNode_collapse [of n] by simp
  qed
next
  case (Cons c key)
  define n0 where "n0 = (case nopt of None \<Rightarrow> TrieNode fmempty None | Some n \<Rightarrow> n)"
  define child0 where "child0 = fmlookup (children n0) c"
  define P where "P = put_node child0 key v"
  have put: "put_node nopt (c # key) v = TrieNode (fmupd c P (children n0)) (node_value n0)"
    by (simp add: n0_def child0_def P_def Let_def)
  have wfc: "wf_trie child0"
    using Cons.prems(1)
    by (cases nopt)
       (auto simp: n0_def child0_def wf_trie_def split: option.splits
             dest: no_nonvalue_leaf_iff [THEN iffD1])
  have ub: "(case lookup_trie child0 key of None \<Rightarrow> True | Some m \<Rightarrow> \<not> is_value_node m)"
    using Cons.prems(2)
    by (cases nopt) (auto simp: n0_def child0_def lookup_trie_def split: option.splits)
  have ih: "remove_node P key = child0"
    unfolding P_def by (rule Cons.IH [OF wfc ub])
  show ?case
  proof (cases child0)
    case None
    then have nc: "fmlookup (children n0) c = None" by (simp add: child0_def)
    then have dr: "fmdrop c (fmupd c P (children n0)) = children n0"
      by (simp add: fmdrop_fmupd_same fmdrop_idle fmdom_notI)
    have cnotin: "c |\<notin>| fmdom (children n0)" using nc by (simp add: fmdom_notI)
    show ?thesis
    proof (cases nopt)
      case None
      then have "n0 = TrieNode fmempty None" by (simp add: n0_def)
      then show ?thesis
        using None ih \<open>child0 = None\<close> unfolding put
        by (simp add: is_value_node_def fcard_finsert_if fcard_fempty)
    next
      case (Some n)
      then have n0: "n0 = n" by (simp add: n0_def)
      have "\<not> (\<not> is_value_node n \<and> fcard (fmdom (fmupd c P (children n))) = 1)"
      proof
        assume a: "\<not> is_value_node n \<and> fcard (fmdom (fmupd c P (children n))) = 1"
        then have "node_value n = None" by (simp add: is_value_node_def)
        then have "children n \<noteq> fmempty"
          using Cons.prems(1) Some
          by (auto simp: wf_trie_def dest: no_nonvalue_leaf_iff [THEN iffD1])
        then have "fmdom (children n) \<noteq> {||}" by (metis fmrestrict_fset_dom fmrestrict_fset_null)
        then have "fcard (fmdom (children n)) \<noteq> 0" by simp
        then show False using a cnotin n0 by (simp add: fcard_finsert_if)
      qed
      then show ?thesis
        using Some ih \<open>child0 = None\<close> dr n0 TrieNode_collapse [of n] unfolding put
        by (simp add: is_value_node_def)
    qed
  next
    case (Some ch0)
    then obtain n where n: "nopt = Some n" "n0 = n"
      by (cases nopt) (auto simp: n0_def child0_def)
    have "fmupd c ch0 (fmupd c P (children n)) = children n"
      using Some n by (simp add: child0_def fmupd_same)
    then show ?thesis
      using Some ih n TrieNode_collapse [of n] unfolding put by simp
  qed
qed

lemma bound_Put_same: "bound (Put t k v) k"
  using lookup_put_node [of t "strip_nul k" v]
  by (auto simp: bound_def lookup_trie_def Put_eq is_value_node_def)

lemma Remove_Put_unbound:
  assumes "wf_trie t" and "\<not> bound t k"
  shows "Remove (Put t k v) k = t"
proof -
  have "(case lookup_trie t (strip_nul k) of None \<Rightarrow> True | Some m \<Rightarrow> \<not> is_value_node m)"
    using assms(2) by (simp add: bound_def split: option.splits)
  from remove_put_node [OF assms(1) this, of v] show ?thesis
    using bound_Put_same [of t k v] by (simp add: Remove_eq Put_eq)
qed

lemma remove_node_None_iff:
  "lookup_node n key = Some m \<Longrightarrow>
   remove_node n key = None \<longleftrightarrow>
     children m = fmempty \<and> (\<forall>i<length key. prunable (FindPath_from n key ! i))"
proof (induction key arbitrary: n)
  case Nil
  then show ?case by simp
next
  case (Cons c key)
  then obtain ch where ch: "fmlookup (children n) c = Some ch" and m: "lookup_node ch key = Some m"
    by (cases "fmlookup (children n) c") auto
  have "remove_node n (c # key) = None \<longleftrightarrow> remove_node ch key = None \<and> prunable n"
    using ch by (auto simp: prunable_def split: option.splits)
  also have "\<dots> \<longleftrightarrow> children m = fmempty \<and>
       (\<forall>i<length key. prunable (FindPath_from ch key ! i)) \<and> prunable n"
    using Cons.IH [OF m] by auto
  also have "\<dots> \<longleftrightarrow> children m = fmempty \<and>
       (\<forall>i<length (c # key). prunable (FindPath_from n (c # key) ! i))"
    using ch by (auto simp: All_less_Suc2)
  finally show ?case .
qed

subsection \<open>The claims about the trie\<close>

lemmas trie_eval =
  Put_eq Remove_eq Get_eq bound_def lookup_trie_def strip_nul_def is_value_node_def Let_def
  fcard_finsert_if fcard_fempty prunable_def FindPath_def

lemma Put_a: "Put None ''a'' (1::nat) =
   Some (TrieNode (fmupd CHR ''a'' (TrieNode fmempty (Some 1)) fmempty) None)"
  by (simp add: trie_eval)

lemma Put_ab: "Put None ''ab'' (1::nat) =
   Some (TrieNode (fmupd CHR ''a'' (TrieNode (fmupd CHR ''b'' (TrieNode fmempty (Some 1)) fmempty) None) fmempty) None)"
  by (simp add: trie_eval)

text \<open>
  C6, as stated, fails in its third part: \<open>Put\<close> overwrites. With \<open>t\<close> the trie that binds
  \<open>"a"\<close> to 1, \<open>t.Put("a", 2).Remove("a")\<close> is the empty trie, not \<open>t\<close>.
\<close>

theorem Put_Remove_not_inverse:
  "Remove (Put (Put None ''a'' (1::nat)) ''a'' 2) ''a'' = None \<and>
   Put None ''a'' (1::nat) \<noteq> None \<and>
   Remove (Put (Put None ''a'' (1::nat)) ''a'' 2) ''a'' \<noteq> Put None ''a'' 1"
  by (simp add: trie_eval)

text \<open>
  C6, amended. For every trie \<open>t\<close>, key \<open>k\<close> and value \<open>v\<close> of type \<open>T\<close>:
  \<open>t.Put(k, v).Get<T>(k)\<close> is the stored \<open>v\<close>; \<open>t'.Remove(k).Get(k)\<close> is null for every
  trie \<open>t'\<close>; and \<open>t.Put(k, v).Remove(k)\<close> is structurally equal to \<open>t\<close> whenever \<open>k\<close>
  is not bound in \<open>t\<close> and \<open>t\<close> has no non-value leaf (as every trie built from the empty
  trie by \<open>Put\<close> and \<open>Remove\<close> has).
\<close>

theorem trie_put_get_remove:
  "(T v \<longrightarrow> Get T (Put t k v) k = Some v) \<and>
   Get T (Remove t' k) k = None \<and>
   (wf_trie t \<and> \<not> bound t k \<longrightarrow> Remove (Put t k v) k = t)"
  by (simp add: Get_Put_same Get_Remove_same Remove_Put_unbound)

theorem trie_put_get_remove_witness:
  "even (2::nat) \<and>
   Get even (Put (Put None ''ab'' 1) ''a'' (2::nat)) ''a'' = Some 2 \<and>
   Get even (Remove (Put None ''ab'' (1::nat)) ''ab'') ''ab'' = None \<and>
   wf_trie (Put None ''ab'' (1::nat)) \<and>
   \<not> bound (Put None ''ab'' (1::nat)) ''a'' \<and>
   Remove (Put (Put None ''ab'' 1) ''a'' (2::nat)) ''a'' = Put None ''ab'' 1"
proof -
  have e: "even (2::nat)" by simp
  have r: "reachable (Put None ''ab'' (1::nat))"
    by (rule reachable.put [OF reachable.empty])
  have w: "wf_trie (Put None ''ab'' (1::nat))" by (rule reachable_wf [OF r])
  have b: "\<not> bound (Put None ''ab'' (1::nat)) ''a''"
    unfolding Put_ab by (simp add: trie_eval)
  show ?thesis
    using e w b
      trie_put_get_remove [of even "2::nat" "Put None ''ab'' 1" "''a''" "Put None ''ab'' 1"]
      trie_put_get_remove [of even "2::nat" "Put None ''ab'' 1" "''ab''" "Put None ''ab'' 1"]
    by simp
qed

text \<open>
  C7. Every trie built from the empty trie by \<open>Put\<close> and \<open>Remove\<close> has no leaf without a
  value. On such a trie, \<open>Remove\<close> of a bound key builds what \<open>remove_node\<close> describes:
  a terminal node without children is pruned, together with the ancestors above it that are
  non-value nodes with exactly one child, as far up as such ancestors follow one another;
  the result has again no non-value leaf; and the result is the empty trie exactly when the
  terminal node has no children and every node above it on the path, the root included, is
  a non-value node with exactly one child.
\<close>

theorem reachable_no_nonvalue_leaf:
  assumes "reachable t"
  shows "wf_trie t \<and>
         (\<forall>key n. t = Some n \<and> bound t key \<longrightarrow>
            Remove t key = remove_node n (strip_nul key) \<and>
            wf_trie (Remove t key) \<and>
            (Remove t key = None \<longleftrightarrow>
               children (last (FindPath t (strip_nul key))) = fmempty \<and>
               (\<forall>i<length (strip_nul key). prunable (FindPath t (strip_nul key) ! i))))"
proof (intro conjI allI impI)
  show w: "wf_trie t" by (rule reachable_wf [OF assms])
  fix key n
  assume a: "t = Some n \<and> bound t key"
  then obtain m where m: "lookup_node n (strip_nul key) = Some m"
    by (auto simp: bound_Some)
  show eq: "Remove t key = remove_node n (strip_nul key)"
    using a by (auto simp: Remove_eq)
  show "wf_trie (Remove t key)" by (rule Remove_wf [OF w])
  have "last (FindPath t (strip_nul key)) = m"
    using a FindPath_from_last [OF m] by (simp add: FindPath_def)
  then show "Remove t key = None \<longleftrightarrow>
               children (last (FindPath t (strip_nul key))) = fmempty \<and>
               (\<forall>i<length (strip_nul key). prunable (FindPath t (strip_nul key) ! i))"
    using remove_node_None_iff [OF m] a eq by (simp add: FindPath_def)
qed

theorem reachable_no_nonvalue_leaf_witness:
  "reachable (Put None ''ab'' (1::nat)) \<and>
   wf_trie (Put None ''ab'' (1::nat)) \<and>
   Put None ''ab'' (1::nat) =
     Some (TrieNode (fmupd CHR ''a'' (TrieNode (fmupd CHR ''b'' (TrieNode fmempty (Some 1)) fmempty) None) fmempty) None) \<and>
   bound (Put None ''ab'' (1::nat)) ''ab'' \<and>
   0 < length (strip_nul ''ab'') \<and>
   prunable (FindPath (Put None ''ab'' (1::nat)) (strip_nul ''ab'') ! 0) \<and>
   Remove (Put None ''ab'' (1::nat)) ''ab'' = None"
proof -
  have r: "reachable (Put None ''ab'' (1::nat))"
    by (rule reachable.put [OF reachable.empty])
  have b: "bound (Put None ''ab'' (1::nat)) ''ab''" by (rule bound_Put_same)
  have rm: "Remove (Put None ''ab'' (1::nat)) ''ab'' = None"
    unfolding Put_ab by (simp add: trie_eval)
  have p: "prunable (FindPath (Put None ''ab'' (1::nat)) (strip_nul ''ab'') ! 0)"
    unfolding Put_ab by (simp add: trie_eval)
  show ?thesis
    using reachable_no_nonvalue_leaf [OF r] r b rm p Put_ab
    by (simp add: strip_nul_def)
qed

section \<open>Properties of the trie in the heap\<close>

lemma heap_ok_iff:
  "heap_ok h \<longleftrightarrow>
     (\<forall>a<length h. \<forall>c b. fmlookup (h_children (h ! a)) c = Some b \<longrightarrow> b < length h)"
  by (auto simp: heap_ok_def list_all_length fmpred_iff)

lemma extends_nth: "take (length h) h' = h \<Longrightarrow> a < length h \<Longrightarrow> h' ! a = h ! a"
  by (metis nth_take)

lemma h_FindPath_from_stable:
  assumes ok: "heap_ok h" and ext: "take (length h) h' = h"
  shows "a < length h \<Longrightarrow>
         h_FindPath_from h' a key = h_FindPath_from h a key \<and>
         (\<forall>b\<in>set (h_FindPath_from h a key). b < length h)"
proof (induction key arbitrary: a)
  case Nil
  then show ?case by simp
next
  case (Cons c key)
  have e: "h' ! a = h ! a" using extends_nth [OF ext Cons.prems] .
  show ?case
  proof (cases "fmlookup (h_children (h ! a)) c")
    case None
    then show ?thesis using e Cons.prems by simp
  next
    case (Some b)
    then have "b < length h" using ok Cons.prems unfolding heap_ok_iff by blast
    from Cons.IH [OF this] show ?thesis using e Some Cons.prems by simp
  qed
qed

lemma h_FindPath_stable:
  assumes "heap_ok h" "root_ok h t" "take (length h) h' = h"
  shows "h_FindPath h' t key = h_FindPath h t key \<and> (\<forall>b\<in>set (h_FindPath h t key). b < length h)"
proof (cases t)
  case None
  then show ?thesis by (simp add: h_FindPath_def)
next
  case (Some a)
  then have "a < length h" using assms(2) by (simp add: root_ok_def)
  from h_FindPath_from_stable [OF assms(1) assms(3) this, of key]
  show ?thesis using Some by (simp add: h_FindPath_def)
qed

lemma h_FindPath_bound:
  assumes "heap_ok h" "root_ok h t"
  shows "\<forall>b\<in>set (h_FindPath h t key). b < length h"
  using h_FindPath_stable [OF assms, of h key] by simp

lemma h_Get_stable:
  assumes ok: "heap_ok h" and rt: "root_ok h t" and ext: "take (length h) h' = h"
  shows "h_Get T h' t k = h_Get T h t k"
proof -
  let ?key = "strip_nul k"
  note st = h_FindPath_stable [OF ok rt ext, of ?key]
  show ?thesis
  proof (cases "length (h_FindPath h t ?key) = length ?key + 1")
    case False
    then show ?thesis using st by (simp add: h_Get_def Let_def)
  next
    case True
    then have "h_FindPath h t ?key \<noteq> []" by auto
    then have "last (h_FindPath h t ?key) < length h" using st by simp
    then have "h' ! last (h_FindPath h t ?key) = h ! last (h_FindPath h t ?key)"
      using extends_nth [OF ext] by simp
    then show ?thesis using st by (simp add: h_Get_def Let_def)
  qed
qed

lemma alloc_inv_init: "alloc_inv h (h, [])"
  by (simp add: alloc_inv_def)

lemma alloc_inv_emplace_back:
  assumes "alloc_inv h s" and "\<forall>c b. fmlookup (h_children n) c = Some b \<longrightarrow> b < length h"
  shows "alloc_inv h (emplace_back n s) \<and> length (snd (emplace_back n s)) = Suc (length (snd s))"
proof -
  from assms(1) obtain xs where xs: "fst s = h @ xs" "snd s = [length h..<length h + length xs]"
    "\<forall>n\<in>set xs. \<forall>c b. fmlookup (h_children n) c = Some b \<longrightarrow> b < length h"
    unfolding alloc_inv_def by blast
  have "fst (emplace_back n s) = h @ (xs @ [n])" by (simp add: emplace_back_def xs)
  moreover have "snd (emplace_back n s) = [length h..<length h + length (xs @ [n])]"
    by (simp add: emplace_back_def xs)
  moreover have "\<forall>m\<in>set (xs @ [n]). \<forall>c b. fmlookup (h_children m) c = Some b \<longrightarrow> b < length h"
    using xs(3) assms(2) by auto
  ultimately have "alloc_inv h (emplace_back n s)" unfolding alloc_inv_def by blast
  then show ?thesis by (simp add: emplace_back_def)
qed

lemma alloc_inv_old:
  "alloc_inv h s \<Longrightarrow> a < length h \<Longrightarrow> fst s ! a = h ! a"
  by (auto simp: alloc_inv_def nth_append)

lemma alloc_inv_fold:
  assumes "alloc_inv h s"
    and "\<forall>i\<in>set is. \<forall>s'. alloc_inv h s' \<longrightarrow>
           alloc_inv h (f i s') \<and> length (snd (f i s')) = Suc (length (snd s'))"
  shows "alloc_inv h (fold f is s) \<and> length (snd (fold f is s)) = length (snd s) + length is"
  using assms
proof (induction "is" arbitrary: s)
  case Nil
  then show ?case by simp
next
  case (Cons i "is")
  have "\<forall>s'. alloc_inv h s' \<longrightarrow>
           alloc_inv h (f i s') \<and> length (snd (f i s')) = Suc (length (snd s'))"
    using Cons.prems(2) by (simp del: split_paired_All)
  then have 1: "alloc_inv h (f i s) \<and> length (snd (f i s)) = Suc (length (snd s))"
    using Cons.prems(1) by blast
  have 2: "\<forall>i\<in>set is. \<forall>s'. alloc_inv h s' \<longrightarrow>
           alloc_inv h (f i s') \<and> length (snd (f i s')) = Suc (length (snd s'))"
    using Cons.prems(2) by (simp del: split_paired_All)
  have "alloc_inv h (fold f is (f i s)) \<and>
        length (snd (fold f is (f i s))) = length (snd (f i s)) + length is"
    using 1 2 by (intro Cons.IH) simp_all
  then show ?case using 1 by simp
qed

lemma alloc_inv_heap_ok:
  assumes "heap_ok h" "alloc_inv h s"
  shows "heap_ok (fst s) \<and> take (length h) (fst s) = h \<and>
         (\<forall>j<length (snd s). length h \<le> snd s ! j \<and> snd s ! j < length (fst s))"
proof -
  from assms(2) obtain xs where xs: "fst s = h @ xs" "snd s = [length h..<length h + length xs]"
    "\<forall>n\<in>set xs. \<forall>c b. fmlookup (h_children n) c = Some b \<longrightarrow> b < length h"
    unfolding alloc_inv_def by blast
  have "heap_ok (h @ xs)"
    unfolding heap_ok_iff
  proof (intro allI impI)
    fix a c b
    assume a: "a < length (h @ xs)" and l: "fmlookup (h_children ((h @ xs) ! a)) c = Some b"
    show "b < length (h @ xs)"
    proof (cases "a < length h")
      case True
      then have "fmlookup (h_children (h ! a)) c = Some b" using l by (simp add: nth_append)
      then have "b < length h" using True assms(1) unfolding heap_ok_iff by blast
      then show ?thesis by simp
    next
      case False
      then have "(h @ xs) ! a \<in> set xs" using a by (auto simp: nth_append)
      then show ?thesis using xs(3) l by fastforce
    qed
  qed
  then show ?thesis using xs by simp
qed

lemma h_link_nodes_frame:
  "heap_ok h \<Longrightarrow> i < length nn \<Longrightarrow> (\<forall>j<length nn. n0 \<le> nn ! j \<and> nn ! j < length h) \<Longrightarrow>
   heap_ok (h_link_nodes key nn i h) \<and> length (h_link_nodes key nn i h) = length h \<and>
   take n0 (h_link_nodes key nn i h) = take n0 h"
proof (induction i arbitrary: h)
  case 0
  then show ?case by simp
next
  case (Suc i)
  let ?n = "HeapNode (fmupd (key ! i) (nn ! Suc i) (h_children (h ! (nn ! i)))) (h_value (h ! (nn ! i)))"
  let ?h = "h[nn ! i := ?n]"
  have i: "i < length nn" and si: "nn ! Suc i < length h" and ni: "n0 \<le> nn ! i" "nn ! i < length h"
    using Suc.prems by auto
  have ok: "heap_ok ?h"
    unfolding heap_ok_iff
  proof (intro allI impI)
    fix a c b
    assume a: "a < length ?h" and l: "fmlookup (h_children (?h ! a)) c = Some b"
    show "b < length ?h"
    proof (cases "a = nn ! i")
      case True
      then have "fmlookup (fmupd (key ! i) (nn ! Suc i) (h_children (h ! (nn ! i)))) c = Some b"
        using l ni by simp
      then show ?thesis
        using si ni Suc.prems(1) unfolding heap_ok_iff by (auto split: if_splits)
    next
      case False
      then show ?thesis using l a Suc.prems(1) unfolding heap_ok_iff by auto
    qed
  qed
  have b: "\<forall>j<length nn. n0 \<le> nn ! j \<and> nn ! j < length ?h" using Suc.prems(3) by simp
  have t: "take n0 ?h = take n0 h" using ni by simp
  from Suc.IH [OF ok i b] show ?case using t by simp
qed

lemma h_Put_step_inv:
  assumes ok: "heap_ok h" and pb: "\<forall>b\<in>set path. b < length h" and inv: "alloc_inv h s"
  shows "alloc_inv h (h_Put_step path i s) \<and>
         length (snd (h_Put_step path i s)) = Suc (length (snd s))"
proof (cases "i < length path")
  case True
  then have b: "path ! i < length h" using pb by simp
  then have "fst s ! (path ! i) = h ! (path ! i)" using alloc_inv_old [OF inv] by simp
  moreover have "\<forall>c a. fmlookup (h_children (h ! (path ! i))) c = Some a \<longrightarrow> a < length h"
    using ok b unfolding heap_ok_iff by blast
  ultimately show ?thesis
    using True alloc_inv_emplace_back [OF inv, of "h ! (path ! i)"] by (simp add: h_Put_step_def)
next
  case False
  then show ?thesis
    using alloc_inv_emplace_back [OF inv, of "HeapNode fmempty None"] by (simp add: h_Put_step_def)
qed

lemma h_finish:
  assumes ok: "heap_ok h" and inv: "alloc_inv h s2" and len: "length (snd s2) = Suc m"
  shows "take (length h) (h_link_nodes key (snd s2) m (fst s2)) = h \<and>
         heap_ok (h_link_nodes key (snd s2) m (fst s2)) \<and>
         root_ok (h_link_nodes key (snd s2) m (fst s2)) (Some (snd s2 ! 0))"
proof -
  note a = alloc_inv_heap_ok [OF ok inv]
  have m: "m < length (snd s2)" using len by simp
  have b: "\<forall>j<length (snd s2). length h \<le> snd s2 ! j \<and> snd s2 ! j < length (fst s2)"
    using a by blast
  from h_link_nodes_frame [OF _ m b, of key] a
  have l: "heap_ok (h_link_nodes key (snd s2) m (fst s2))"
    "length (h_link_nodes key (snd s2) m (fst s2)) = length (fst s2)"
    "take (length h) (h_link_nodes key (snd s2) m (fst s2)) = h"
    by simp_all
  have "snd s2 ! 0 < length (fst s2)" using b len by simp
  then show ?thesis using l by (simp add: root_ok_def)
qed

lemma h_Put_frame:
  assumes ok: "heap_ok h" and rt: "root_ok h t"
  shows "take (length h) (fst (h_Put h t key0 v)) = h \<and>
         heap_ok (fst (h_Put h t key0 v)) \<and>
         root_ok (fst (h_Put h t key0 v)) (snd (h_Put h t key0 v))"
proof -
  define key where "key = strip_nul key0"
  define path where "path = h_FindPath h t key"
  define s1 where "s1 = fold (h_Put_step path) [0..<length key] (h, [])"
  define s2 where "s2 = (if length path = length key + 1
                then emplace_back (HeapNode (h_children (fst s1 ! last path)) (Some v)) s1
                else emplace_back (HeapNode fmempty (Some v)) s1)"
  have pb: "\<forall>b\<in>set path. b < length h"
    unfolding path_def by (rule h_FindPath_bound [OF ok rt])
  have st: "\<forall>i\<in>set [0..<length key]. \<forall>s'. alloc_inv h s' \<longrightarrow>
                   alloc_inv h (h_Put_step path i s') \<and>
                   length (snd (h_Put_step path i s')) = Suc (length (snd s'))"
    using h_Put_step_inv [OF ok pb] by blast
  have i1: "alloc_inv h s1" and l1: "length (snd s1) = length key"
    using alloc_inv_fold [of h "(h, [])" "[0..<length key]" "h_Put_step path",
          OF alloc_inv_init st]
    by (simp_all add: s1_def)
  have 2: "alloc_inv h s2 \<and> length (snd s2) = Suc (length key)"
  proof (cases "length path = length key + 1")
    case True
    then have "path \<noteq> []" by auto
    then have b: "last path < length h" using pb by simp
    then have "fst s1 ! last path = h ! last path" using alloc_inv_old [OF i1] by simp
    moreover have "\<forall>c a. fmlookup (h_children (h ! last path)) c = Some a \<longrightarrow> a < length h"
      using ok b unfolding heap_ok_iff by blast
    ultimately show ?thesis
      using True l1
        alloc_inv_emplace_back [OF i1, of "HeapNode (h_children (h ! last path)) (Some v)"]
      by (simp add: s2_def)
  next
    case False
    then show ?thesis
      using l1 alloc_inv_emplace_back [OF i1, of "HeapNode fmempty (Some v)"]
      by (simp add: s2_def)
  qed
  then have i2: "alloc_inv h s2" and l2: "length (snd s2) = Suc (length key)" by simp_all
  have P: "h_Put h t key0 v =
          (h_link_nodes key (snd s2) (length (snd s2) - 1) (fst s2), Some (snd s2 ! 0))"
    unfolding h_Put_def Let_def s2_def s1_def path_def key_def by (rule refl)
  have "h_Put h t key0 v =
          (h_link_nodes key (snd s2) (length key) (fst s2), Some (snd s2 ! 0))"
    unfolding P using l2 by simp
  then show ?thesis using h_finish [OF ok i2 l2, of key] by simp
qed

lemma h_prune_le: "h_prune h path i \<le> i"
  by (induction i) (simp_all add: le_Suc_eq)

lemma h_Remove_step_inv:
  assumes ok: "heap_ok h" and pb: "\<forall>b\<in>set path. b < length h" and inv: "alloc_inv h s"
    and i: "i < length path"
  shows "alloc_inv h (h_Remove_step path i s) \<and>
         length (snd (h_Remove_step path i s)) = Suc (length (snd s))"
proof -
  have b: "path ! i < length h" using pb i by simp
  then have "fst s ! (path ! i) = h ! (path ! i)" using alloc_inv_old [OF inv] by simp
  moreover have "\<forall>c a. fmlookup (h_children (h ! (path ! i))) c = Some a \<longrightarrow> a < length h"
    using ok b unfolding heap_ok_iff by blast
  ultimately show ?thesis
    using alloc_inv_emplace_back [OF inv, of "h ! (path ! i)"] by (simp add: h_Remove_step_def)
qed

lemma h_Remove_frame:
  assumes ok: "heap_ok h" and rt: "root_ok h t"
  shows "take (length h) (fst (h_Remove h t key0)) = h \<and>
         heap_ok (fst (h_Remove h t key0)) \<and>
         root_ok (fst (h_Remove h t key0)) (snd (h_Remove h t key0))"
proof -
  define key where "key = strip_nul key0"
  define path where "path = h_FindPath h t key"
  define sum where "sum = (if h_children (h ! (path ! (length path - 1))) = fmempty
                       then h_prune h path (length path - 1) else length path)"
  define s1 where "s1 = fold (h_Remove_step path) [0..<sum - 1] (h, [])"
  define s2 where "s2 = (if sum = length key + 1
                            then emplace_back (HeapNode (h_children (fst s1 ! (path ! (sum - 1)))) None) s1
                            else emplace_back
                                   (HeapNode (fmdrop (key ! (sum - 1))
                                                (h_children (fst s1 ! (path ! (sum - 1)))))
                                             (h_value (fst s1 ! (path ! (sum - 1))))) s1)"
  have pb: "\<forall>b\<in>set path. b < length h"
    unfolding path_def by (rule h_FindPath_bound [OF ok rt])
  have sl: "sum \<le> length path"
    unfolding sum_def using h_prune_le [of h path "length path - 1"] by auto
  have R: "h_Remove h t key0 =
             (if length path \<noteq> length key + 1 \<or> \<not> h_is_value_node (h ! last path) then (h, t)
              else if sum \<le> 0 then (h, None)
              else (h_link_nodes key (snd s2) (sum - 1) (fst s2), Some (snd s2 ! 0)))"
    unfolding h_Remove_def Let_def s2_def s1_def sum_def path_def key_def by (rule refl)
  show ?thesis
  proof (cases "length path \<noteq> length key + 1 \<or> \<not> h_is_value_node (h ! last path)")
    case True
    then have "h_Remove h t key0 = (h, t)"
      unfolding R by simp
    then show ?thesis using ok rt by simp
  next
    case False
    note complete = this
    show ?thesis
    proof (cases "sum \<le> 0")
      case True
      then have "h_Remove h t key0 = (h, None)"
        using complete unfolding R by simp
      then show ?thesis using ok by (simp add: root_ok_def)
    next
      case False
      then have sp: "0 < sum" by simp
      have st: "\<forall>i\<in>set [0..<sum - 1]. \<forall>s'. alloc_inv h s' \<longrightarrow>
                   alloc_inv h (h_Remove_step path i s') \<and>
                   length (snd (h_Remove_step path i s')) = Suc (length (snd s'))"
      proof (intro ballI allI impI)
        fix i s'
        assume "i \<in> set [0..<sum - 1]" and inv': "alloc_inv h s'"
        then have "i < length path" using sl by auto
        then show "alloc_inv h (h_Remove_step path i s') \<and>
                   length (snd (h_Remove_step path i s')) = Suc (length (snd s'))"
          by (rule h_Remove_step_inv [OF ok pb inv'])
      qed
      have i1: "alloc_inv h s1" and l1: "length (snd s1) = sum - 1"
        using alloc_inv_fold [of h "(h, [])" "[0..<sum - 1]" "h_Remove_step path",
              OF alloc_inv_init st]
        by (simp_all add: s1_def)
      have b: "path ! (sum - 1) < length h" using pb sl sp by simp
      then have e: "fst s1 ! (path ! (sum - 1)) = h ! (path ! (sum - 1))"
        using alloc_inv_old [OF i1] by simp
      have c: "\<forall>c a. fmlookup (h_children (h ! (path ! (sum - 1)))) c = Some a \<longrightarrow> a < length h"
        using ok b unfolding heap_ok_iff by blast
      have 2: "alloc_inv h s2 \<and> length (snd s2) = Suc (sum - 1)"
      proof (cases "sum = length key + 1")
        case True
        then show ?thesis
          using l1 e c
            alloc_inv_emplace_back [OF i1, of "HeapNode (h_children (h ! (path ! (sum - 1)))) None"]
          by (simp add: s2_def)
      next
        case False
        have "\<forall>c' a. fmlookup (fmdrop (key ! (sum - 1)) (h_children (h ! (path ! (sum - 1))))) c' = Some a
                \<longrightarrow> a < length h"
          using c by (auto split: if_splits)
        then show ?thesis
          using False l1 e
            alloc_inv_emplace_back [OF i1, of "HeapNode (fmdrop (key ! (sum - 1))
                                                (h_children (h ! (path ! (sum - 1)))))
                                             (h_value (h ! (path ! (sum - 1))))"]
          by (simp add: s2_def)
      qed
      then have i2: "alloc_inv h s2" and l2: "length (snd s2) = Suc (sum - 1)" by simp_all
      have "h_Remove h t key0 =
              (h_link_nodes key (snd s2) (sum - 1) (fst s2), Some (snd s2 ! 0))"
        using complete False unfolding R by simp
      then show ?thesis using h_finish [OF ok i2 l2, of key] by simp
    qed
  qed
qed

lemma h_apply_frame:
  assumes "heap_ok (fst s)" and "root_ok (fst s) (snd s)"
  shows "take (length (fst s)) (fst (h_apply op s)) = fst s \<and>
         heap_ok (fst (h_apply op s)) \<and>
         root_ok (fst (h_apply op s)) (snd (h_apply op s))"
proof (cases op)
  case (Op_Put key v)
  then show ?thesis using h_Put_frame [OF assms, of key v] by simp
next
  case (Op_Remove key)
  then show ?thesis using h_Remove_frame [OF assms, of key] by simp
qed

lemma take_extends_trans:
  assumes "take (length h) h1 = h" and "take (length h1) h2 = h1"
  shows "take (length h) h2 = h"
proof -
  have "length (take (length h) h1) = length h" using assms(1) by simp
  then have "length h \<le> length h1" by simp
  then have "take (length h) h2 = take (length h) (take (length h1) h2)" by (simp add: min_def)
  then show ?thesis using assms by simp
qed

lemma h_run_frame:
  assumes "heap_ok (fst s)" and "root_ok (fst s) (snd s)"
  shows "take (length (fst s)) (fst (h_run ops s)) = fst s \<and>
         heap_ok (fst (h_run ops s)) \<and>
         root_ok (fst (h_run ops s)) (snd (h_run ops s))"
  using assms
proof (induction ops arbitrary: s)
  case Nil
  then show ?case by simp
next
  case (Cons op ops)
  note a = h_apply_frame [OF Cons.prems, of op]
  then have "take (length (fst (h_apply op s))) (fst (h_run ops (h_apply op s))) = fst (h_apply op s) \<and>
         heap_ok (fst (h_run ops (h_apply op s))) \<and>
         root_ok (fst (h_run ops (h_apply op s))) (snd (h_run ops (h_apply op s)))"
    by (intro Cons.IH) simp_all
  then show ?case using a take_extends_trans [of "fst s" "fst (h_apply op s)"] by simp
qed

text \<open>
  C9. Let \<open>t\<close> be a trie in a closed heap \<open>h\<close>. After any sequence of \<open>Put\<close> and
  \<open>Remove\<close> operations, applied to \<open>t\<close> and then to the tries returned, the heap is \<open>h\<close>
  followed by new nodes: every node that existed is unchanged, only new nodes have been
  built and written. So \<open>t.Get(k)\<close> returns after the sequence what it returned before,
  for every key and every value type.
\<close>

theorem trie_versions_unchanged:
  assumes "heap_ok h" and "root_ok h t"
  shows "(\<exists>new. fst (h_run ops (h, t)) = h @ new) \<and>
         (\<forall>a<length h. fst (h_run ops (h, t)) ! a = h ! a) \<and>
         (\<forall>T k. h_Get T (fst (h_run ops (h, t))) t k = h_Get T h t k)"
proof -
  have f: "take (length h) (fst (h_run ops (h, t))) = h"
    using h_run_frame [of "(h, t)" ops] assms by simp
  then have "fst (h_run ops (h, t)) = h @ drop (length h) (fst (h_run ops (h, t)))"
    by (metis append_take_drop_id)
  moreover have "\<forall>a<length h. fst (h_run ops (h, t)) ! a = h ! a"
    using extends_nth [OF f] by simp
  moreover have "\<forall>T k. h_Get T (fst (h_run ops (h, t))) t k = h_Get T h t k"
    using h_Get_stable [OF assms f] by simp
  ultimately show ?thesis by blast
qed

theorem trie_versions_unchanged_witness:
  "heap_ok heap_ab \<and> root_ok heap_ab (Some 0) \<and>
   h_Get (\<lambda>_. True) heap_ab (Some 0) ''ab'' = Some 1 \<and>
   h_Get (\<lambda>_. True) (fst (h_run [Op_Put ''ab'' 2, Op_Remove ''ab''] (heap_ab, Some 0))) (Some 0) ''ab''
     = Some 1 \<and>
   0 < length heap_ab \<and>
   fst (h_run [Op_Put ''ab'' 2, Op_Remove ''ab''] (heap_ab, Some 0)) ! 0 = heap_ab ! 0"
proof -
  have ok: "heap_ok heap_ab"
    by (simp add: heap_ok_def heap_ab_def fmpred_iff)
  have rt: "root_ok heap_ab (Some 0)"
    by (simp add: root_ok_def heap_ab_def)
  have g: "h_Get (\<lambda>_. True) heap_ab (Some 0) ''ab'' = Some 1"
    by (simp add: h_Get_def h_FindPath_def strip_nul_def heap_ab_def)
  have l: "0 < length heap_ab" by (simp add: heap_ab_def)
  show ?thesis
    using trie_versions_unchanged [OF ok rt, of "[Op_Put ''ab'' 2, Op_Remove ''ab'']"] ok rt g l
    by simp
qed

end
